theory Spec2Isabelle
  imports Main
begin

section \<open>Shared data\<close>

text \<open>A grid position, \<open>{ row, col }\<close>; the fields are JavaScript numbers holding integers.\<close>

record Position =
  row :: int
  col :: int

section \<open>The pair-matching game (MahjongGame): tile selectability\<close>

definition TILE_WIDTH :: int where
  "TILE_WIDTH = 40"

definition TILE_HEIGHT :: int where
  "TILE_HEIGHT = 50"

record Tile =
  id :: string
  type :: string
  x :: int
  y :: int
  z :: int
  isVisible :: bool

text \<open>
  The three predicates that \<open>isTileFree\<close> passes to \<open>tiles.find\<close>. The coordinates of
  the level layout are integers, and \<open>TILE_HEIGHT / 2\<close> is 25 exactly.
\<close>

definition isCovering :: "Tile \<Rightarrow> Tile \<Rightarrow> bool" where
  "isCovering tile t \<longleftrightarrow>
     isVisible t \<and> Tile.z t = Tile.z tile + 1 \<and>
     \<bar>Tile.x t - Tile.x tile\<bar> < TILE_WIDTH \<and>
     \<bar>Tile.y t - Tile.y tile\<bar> < TILE_HEIGHT"

definition isLeftNeighbor :: "Tile \<Rightarrow> Tile \<Rightarrow> bool" where
  "isLeftNeighbor tile t \<longleftrightarrow>
     isVisible t \<and> Tile.z t = Tile.z tile \<and> Tile.id t \<noteq> Tile.id tile \<and>
     \<bar>Tile.y t - Tile.y tile\<bar> < TILE_HEIGHT div 2 \<and>
     Tile.x t < Tile.x tile \<and>
     Tile.x tile - Tile.x t < TILE_WIDTH + 5"

definition isRightNeighbor :: "Tile \<Rightarrow> Tile \<Rightarrow> bool" where
  "isRightNeighbor tile t \<longleftrightarrow>
     isVisible t \<and> Tile.z t = Tile.z tile \<and> Tile.id t \<noteq> Tile.id tile \<and>
     \<bar>Tile.y t - Tile.y tile\<bar> < TILE_HEIGHT div 2 \<and>
     Tile.x t > Tile.x tile \<and>
     Tile.x t - Tile.x tile < TILE_WIDTH + 5"

definition isTileFree :: "Tile list \<Rightarrow> Tile \<Rightarrow> bool" where
  "isTileFree tiles tile =
     (let coveringTile = find (isCovering tile) tiles
      in if coveringTile \<noteq> None then False
         else let leftNeighbor = find (isLeftNeighbor tile) tiles;
                  rightNeighbor = find (isRightNeighbor tile) tiles
              in leftNeighbor = None \<or> rightNeighbor = None)"

text \<open>
  The selectability rule as the specification words it, for comparison with
  \<open>isTileFree\<close>: no other visible tile on a strictly higher layer with an overlapping
  footprint, and on the left or on the right no visible tile of the same layer and row
  band within one tile width.
\<close>

definition isSelectableSpec :: "Tile list \<Rightarrow> Tile \<Rightarrow> bool" where
  "isSelectableSpec tiles tile \<longleftrightarrow>
     \<not> (\<exists>t \<in> set tiles. Tile.id t \<noteq> Tile.id tile \<and> isVisible t \<and> Tile.z t > Tile.z tile \<and>
            \<bar>Tile.x t - Tile.x tile\<bar> < TILE_WIDTH \<and> \<bar>Tile.y t - Tile.y tile\<bar> < TILE_HEIGHT) \<and>
     (\<not> (\<exists>t \<in> set tiles. Tile.id t \<noteq> Tile.id tile \<and> isVisible t \<and> Tile.z t = Tile.z tile \<and>
            \<bar>Tile.y t - Tile.y tile\<bar> < TILE_HEIGHT div 2 \<and>
            Tile.x t < Tile.x tile \<and> Tile.x tile - Tile.x t \<le> TILE_WIDTH) \<or>
      \<not> (\<exists>t \<in> set tiles. Tile.id t \<noteq> Tile.id tile \<and> isVisible t \<and> Tile.z t = Tile.z tile \<and>
            \<bar>Tile.y t - Tile.y tile\<bar> < TILE_HEIGHT div 2 \<and>
            Tile.x t > Tile.x tile \<and> Tile.x t - Tile.x tile \<le> TILE_WIDTH))"

text \<open>Two small boards: three tiles of one row of the level layout, and a tile under a tile two layers up.\<close>

definition mkTile :: "string \<Rightarrow> int \<Rightarrow> int \<Rightarrow> int \<Rightarrow> Tile" where
  "mkTile i px py pz = \<lparr>Tile.id = i, Tile.type = ''tile'', x = px, y = py, z = pz, isVisible = True\<rparr>"

definition rowOfThree :: "Tile list" where
  "rowOfThree = [mkTile ''l0-0-0'' 50 50 0, mkTile ''l0-0-1'' 92 50 0, mkTile ''l0-0-2'' 134 50 0]"

definition twoLayersUp :: "Tile list" where
  "twoLayersUp = [mkTile ''a'' 50 50 0, mkTile ''b'' 50 50 2]"

section \<open>The swap board (match-3 screen): refill-in-place resolution\<close>

text \<open>
  The palette of the source is a list of ten emoji and the two special pieces are two
  more; they are written here by ASCII names, in the order of \<open>ALL_PIECES\<close>.
\<close>

definition BOARD_SIZE :: nat where
  "BOARD_SIZE = 8"

definition ALL_PIECES :: "string list" where
  "ALL_PIECES = [''dog'', ''bone'', ''paws'', ''ball'', ''poodle'', ''meat'', ''teddy'',
                 ''bowl'', ''yarn'', ''cat'']"

definition INITIAL_PIECE_COUNT :: int where
  "INITIAL_PIECE_COUNT = 5"

definition BOMB :: string where
  "BOMB = ''bomb''"

definition RAINBOW :: string where
  "RAINBOW = ''rainbow''"

record GamePiece =
  type :: string
  isSpecial :: "bool option"

type_synonym Board = "GamePiece list list"

text \<open>\<open>xs.slice(0, n)\<close>: a negative end counts from the end of the array.\<close>

definition slice0 :: "'a list \<Rightarrow> int \<Rightarrow> 'a list" where
  "slice0 xs n = (if n \<ge> 0 then take (nat n) xs else take (length xs - nat (- n)) xs)"

definition getPiecesForLevel :: "int \<Rightarrow> string list" where
  "getPiecesForLevel lvl =
     (let count = min (INITIAL_PIECE_COUNT + (lvl - 1)) (int (length ALL_PIECES))
      in slice0 ALL_PIECES count)"

text \<open>
  \<open>Math.random\<close> is an explicit stream of draws \<open>rnd\<close> read at a counter:
  \<open>pieces[Math.floor(Math.random() * pieces.length)]\<close> is the element at the draw
  reduced into the index range. On an empty palette the source reads \<open>undefined\<close>.
\<close>

definition randomPiece :: "(nat \<Rightarrow> nat) \<Rightarrow> nat \<Rightarrow> string list \<Rightarrow> string" where
  "randomPiece rnd k pieces =
     (if pieces = [] then ''undefined'' else pieces ! (rnd k mod length pieces))"

text \<open>\<open>createSpecialPiece\<close> returns the piece and the advanced draw counter.\<close>

definition createSpecialPiece :: "(nat \<Rightarrow> nat) \<Rightarrow> int \<Rightarrow> nat \<Rightarrow> nat \<Rightarrow> GamePiece \<times> nat" where
  "createSpecialPiece rnd difficulty k len =
     (if len \<ge> 4 then (\<lparr>type = BOMB, isSpecial = Some True\<rparr>, k)
      else if len \<ge> 5 then (\<lparr>type = RAINBOW, isSpecial = Some True\<rparr>, k)
      else (\<lparr>type = randomPiece rnd k (getPiecesForLevel difficulty), isSpecial = None\<rparr>,
            k + 1))"

definition initializeBoard :: "(nat \<Rightarrow> nat) \<Rightarrow> int \<Rightarrow> Board" where
  "initializeBoard rnd lvl =
     map (\<lambda>i. map (\<lambda>j. \<lparr>type = randomPiece rnd (i * BOARD_SIZE + j) (getPiecesForLevel lvl),
                          isSpecial = None\<rparr>) [0..<BOARD_SIZE]) [0..<BOARD_SIZE]"

text \<open>
  The state of one \<open>checkMatches\<close> call: the local variables \<open>newBoard\<close>,
  \<open>matchFound\<close> and \<open>matchLength\<close>, the score that \<open>setScore\<close> updates, the
  arguments of the \<open>triggerExplosion\<close> calls in order, and the draw counter.
  \<open>newBoard = [...board]\<close> shares the rows of \<open>board\<close>, so the writes below are the
  writes to the board itself.
\<close>

record SwapState =
  newBoard :: Board
  matchFound :: bool
  matchLength :: nat
  score :: nat
  explosions :: "Position list list"
  draws :: nat

definition pieceAt :: "Board \<Rightarrow> nat \<Rightarrow> nat \<Rightarrow> GamePiece" where
  "pieceAt b r c = b ! r ! c"

text \<open>
  \<open>xs[i] = v\<close> on a JavaScript array: a write past the end extends the array, the
  cells in between holding \<open>undefined\<close>.
\<close>

definition undefinedPiece :: GamePiece where
  "undefinedPiece = \<lparr>type = ''undefined'', isSpecial = None\<rparr>"

definition jsSet :: "'a \<Rightarrow> 'a list \<Rightarrow> nat \<Rightarrow> 'a \<Rightarrow> 'a list" where
  "jsSet hole xs i v =
     (if i < length xs then xs[i := v] else xs @ replicate (i - length xs) hole @ [v])"

definition setPiece :: "Board \<Rightarrow> nat \<Rightarrow> nat \<Rightarrow> GamePiece \<Rightarrow> Board" where
  "setPiece b r c p = b[r := jsSet undefinedPiece (b ! r) c p]"

text \<open>The \<open>while\<close> loops that extend \<open>matchCount\<close> to the right and downwards.\<close>

function countRight :: "Board \<Rightarrow> nat \<Rightarrow> nat \<Rightarrow> string \<Rightarrow> nat \<Rightarrow> nat" where
  "countRight b r c currentType matchCount =
     (if c + matchCount < BOARD_SIZE \<and>
         GamePiece.type (pieceAt b r (c + matchCount)) = currentType
      then countRight b r c currentType (matchCount + 1)
      else matchCount)"
  by pat_completeness auto
termination
  by (relation "measure (\<lambda>(b, r, c, t, m). BOARD_SIZE - (c + m))") auto

function countDown :: "Board \<Rightarrow> nat \<Rightarrow> nat \<Rightarrow> string \<Rightarrow> nat \<Rightarrow> nat" where
  "countDown b r c currentType matchCount =
     (if r + matchCount < BOARD_SIZE \<and>
         GamePiece.type (pieceAt b (r + matchCount) c) = currentType
      then countDown b r c currentType (matchCount + 1)
      else matchCount)"
  by pat_completeness auto
termination
  by (relation "measure (\<lambda>(b, r, c, t, m). BOARD_SIZE - (r + m))") auto

declare countRight.simps [simp del] countDown.simps [simp del]

text \<open>
  The body of \<open>if (matchCount >= 3)\<close>: explosion, score, the special piece on the
  first cell, a fresh random piece on each of the others. \<open>mk i\<close> is the position of the
  \<open>i\<close>-th cell of the run.
\<close>

definition refill :: "(nat \<Rightarrow> nat) \<Rightarrow> int \<Rightarrow> (nat \<Rightarrow> nat \<times> nat) \<Rightarrow> Board \<times> nat \<Rightarrow> nat \<Rightarrow> Board \<times> nat" where
  "refill rnd difficulty mk bk i =
     (case bk of (b, k) \<Rightarrow>
        (setPiece b (fst (mk i)) (snd (mk i))
           \<lparr>type = randomPiece rnd k (getPiecesForLevel difficulty), isSpecial = None\<rparr>,
         k + 1))"

definition resolveRun :: "(nat \<Rightarrow> nat) \<Rightarrow> int \<Rightarrow> (nat \<Rightarrow> nat \<times> nat) \<Rightarrow> nat \<Rightarrow> SwapState \<Rightarrow> SwapState" where
  "resolveRun rnd difficulty mk matchCount st =
     (let positions = map (\<lambda>i. \<lparr>row = int (fst (mk i)), col = int (snd (mk i))\<rparr>) [0..<matchCount];
          (specialPiece, k1) = createSpecialPiece rnd difficulty (draws st) matchCount;
          b1 = setPiece (newBoard st) (fst (mk 0)) (snd (mk 0)) specialPiece;
          (b2, k2) = foldl (refill rnd difficulty mk) (b1, k1) [1..<matchCount]
      in st\<lparr>newBoard := b2, matchFound := True, matchLength := matchCount,
             score := score st + matchCount * 20,
             explosions := explosions st @ [positions], draws := k2\<rparr>)"

text \<open>
  The inner \<open>for\<close> loops; a resolved run advances the loop variable by
  \<open>matchCount - 1\<close> before the increment.
\<close>

function scanRow :: "(nat \<Rightarrow> nat) \<Rightarrow> int \<Rightarrow> nat \<Rightarrow> nat \<Rightarrow> SwapState \<Rightarrow> SwapState" where
  "scanRow rnd difficulty r c st =
     (if c < BOARD_SIZE - 2 then
        (let currentType = GamePiece.type (pieceAt (newBoard st) r c);
             matchCount = countRight (newBoard st) r c currentType 1
         in if matchCount \<ge> 3
            then scanRow rnd difficulty r (c + (matchCount - 1) + 1)
                   (resolveRun rnd difficulty (\<lambda>i. (r, c + i)) matchCount st)
            else scanRow rnd difficulty r (c + 1) st)
      else st)"
  by pat_completeness auto
termination
  by (relation "measure (\<lambda>(rnd, d, r, c, st). BOARD_SIZE - c)") (auto simp: BOARD_SIZE_def)

function scanCol :: "(nat \<Rightarrow> nat) \<Rightarrow> int \<Rightarrow> nat \<Rightarrow> nat \<Rightarrow> SwapState \<Rightarrow> SwapState" where
  "scanCol rnd difficulty c r st =
     (if r < BOARD_SIZE - 2 then
        (let currentType = GamePiece.type (pieceAt (newBoard st) r c);
             matchCount = countDown (newBoard st) r c currentType 1
         in if matchCount \<ge> 3
            then scanCol rnd difficulty c (r + (matchCount - 1) + 1)
                   (resolveRun rnd difficulty (\<lambda>i. (r + i, c)) matchCount st)
            else scanCol rnd difficulty c (r + 1) st)
      else st)"
  by pat_completeness auto
termination
  by (relation "measure (\<lambda>(rnd, d, c, r, st). BOARD_SIZE - r)") (auto simp: BOARD_SIZE_def)

declare scanRow.simps [simp del] scanCol.simps [simp del]

text \<open>
  One call of \<open>checkMatches\<close> on the swap board: all rows, then all columns of the board
  as the row pass left it.
\<close>

definition checkMatchesSwap :: "(nat \<Rightarrow> nat) \<Rightarrow> int \<Rightarrow> nat \<Rightarrow> nat \<Rightarrow> Board \<Rightarrow> SwapState" where
  "checkMatchesSwap rnd difficulty k sc b =
     (let st0 = \<lparr>newBoard = b, matchFound = False, matchLength = 0, score = sc,
                 explosions = [], draws = k\<rparr>;
          st1 = foldl (\<lambda>st r. scanRow rnd difficulty r 0 st) st0 [0..<BOARD_SIZE];
          st2 = foldl (\<lambda>st c. scanCol rnd difficulty c 0 st) st1 [0..<BOARD_SIZE]
      in st2)"

text \<open>
  The cascade: \<open>checkMatches\<close> reschedules itself while a pass found a match. The fuel
  counts the passes; \<open>None\<close> is a cascade that has not stopped within the fuel. The
  result is the last state and the number of passes that found a match.
\<close>

fun cascadeSwap :: "nat \<Rightarrow> (nat \<Rightarrow> nat) \<Rightarrow> int \<Rightarrow> nat \<Rightarrow> nat \<Rightarrow> Board \<Rightarrow> nat \<Rightarrow> (SwapState \<times> nat) option" where
  "cascadeSwap 0 rnd difficulty k sc b n = None"
| "cascadeSwap (Suc fuel) rnd difficulty k sc b n =
     (let st = checkMatchesSwap rnd difficulty k sc b
      in if matchFound st
         then cascadeSwap fuel rnd difficulty (draws st) (score st) (newBoard st) (n + 1)
         else Some (st, n))"

text \<open>
  \<open>attemptSwap\<close> exchanges two adjacent pieces; its callers pass positions on the board
  (\<open>handleSwipe\<close> checks the bounds, \<open>handlePiecePress\<close> gets them from rendered cells).
\<close>

definition attemptSwap :: "Board \<Rightarrow> Position \<Rightarrow> Position \<Rightarrow> Board \<times> bool" where
  "attemptSwap b p1 p2 =
     (let isAdjacent = (\<bar>row p1 - row p2\<bar> = 1 \<and> col p1 = col p2) \<or>
                       (\<bar>col p1 - col p2\<bar> = 1 \<and> row p2 = row p1)
      in if isAdjacent
         then (let temp = pieceAt b (nat (row p1)) (nat (col p1));
                   b1 = setPiece b (nat (row p1)) (nat (col p1)) (pieceAt b (nat (row p2)) (nat (col p2)));
                   b2 = setPiece b1 (nat (row p2)) (nat (col p2)) temp
               in (b2, True))
         else (b, False))"

definition onBoard :: "Position \<Rightarrow> bool" where
  "onBoard p \<longleftrightarrow> 0 \<le> row p \<and> row p < int BOARD_SIZE \<and> 0 \<le> col p \<and> col p < int BOARD_SIZE"

text \<open>Boards and draw streams used as concrete inputs.\<close>

definition mkBoard :: "string list list \<Rightarrow> Board" where
  "mkBoard tss = map (map (\<lambda>t. \<lparr>type = t, isSpecial = None\<rparr>)) tss"

definition scenarioBoard :: Board where
  "scenarioBoard = mkBoard
     [[''dog'', ''bone'', ''dog'', ''bone'', ''dog'', ''bone'', ''dog'', ''bone''],
      [''paws'', ''ball'', ''paws'', ''ball'', ''paws'', ''ball'', ''paws'', ''ball''],
      [''poodle'', ''poodle'', ''poodle'', ''poodle'', ''poodle'', ''bone'', ''dog'', ''bone''],
      [''paws'', ''ball'', ''paws'', ''ball'', ''paws'', ''ball'', ''paws'', ''ball''],
      [''dog'', ''bone'', ''dog'', ''bone'', ''dog'', ''bone'', ''dog'', ''bone''],
      [''paws'', ''ball'', ''paws'', ''ball'', ''paws'', ''ball'', ''paws'', ''ball''],
      [''dog'', ''bone'', ''dog'', ''bone'', ''dog'', ''bone'', ''dog'', ''bone''],
      [''paws'', ''ball'', ''paws'', ''ball'', ''paws'', ''ball'', ''paws'', ''ball'']]"

definition stuckBoard :: Board where
  "stuckBoard = mkBoard
     [[''dog'', ''bone'', ''dog'', ''bone'', ''dog'', ''bone'', ''dog'', ''bone''],
      [''paws'', ''ball'', ''paws'', ''ball'', ''paws'', ''ball'', ''paws'', ''ball''],
      [''poodle'', ''poodle'', ''poodle'', ''bone'', ''dog'', ''bone'', ''dog'', ''bone''],
      [''paws'', ''ball'', ''paws'', ''ball'', ''paws'', ''ball'', ''paws'', ''ball''],
      [''dog'', ''bone'', ''dog'', ''bone'', ''dog'', ''bone'', ''dog'', ''bone''],
      [''paws'', ''ball'', ''paws'', ''ball'', ''paws'', ''ball'', ''paws'', ''ball''],
      [''dog'', ''bone'', ''dog'', ''bone'', ''dog'', ''bone'', ''dog'', ''bone''],
      [''paws'', ''ball'', ''paws'', ''ball'', ''paws'', ''ball'', ''paws'', ''ball'']]"

text \<open>The pieces a cell of the swap board may hold, and a board that holds one in every cell.\<close>

definition symbols :: "string set" where
  "symbols = set ALL_PIECES \<union> {BOMB, RAINBOW}"

definition fullBoard :: "Board \<Rightarrow> bool" where
  "fullBoard b \<longleftrightarrow>
     length b = BOARD_SIZE \<and>
     (\<forall>rw \<in> set b. length rw = BOARD_SIZE \<and> (\<forall>p \<in> set rw. GamePiece.type p \<in> symbols))"

definition drawsPoodle :: "nat \<Rightarrow> nat" where
  "drawsPoodle k = 4"




text \<open>
  What a pass writes into the cells of a run it resolves: the bomb or the rainbow, or a
  piece of no special kind whose symbol is one of the draws \<open>k, ..., k' - 1\<close>.
  \<open>runsWritten\<close> says so of every position passed to \<open>triggerExplosion\<close>.
\<close>

definition written :: "(nat \<Rightarrow> nat) \<Rightarrow> int \<Rightarrow> nat \<Rightarrow> nat \<Rightarrow> GamePiece \<Rightarrow> bool" where
  "written rnd lvl k k' p \<longleftrightarrow>
     p = \<lparr>GamePiece.type = BOMB, isSpecial = Some True\<rparr> \<or>
     p = \<lparr>GamePiece.type = RAINBOW, isSpecial = Some True\<rparr> \<or>
     list_ex (\<lambda>j. p = \<lparr>GamePiece.type = randomPiece rnd j (getPiecesForLevel lvl), isSpecial = None\<rparr>)
       [k..<k']"

definition runsWritten :: "(nat \<Rightarrow> nat) \<Rightarrow> int \<Rightarrow> nat \<Rightarrow> SwapState \<Rightarrow> bool" where
  "runsWritten rnd lvl k st \<longleftrightarrow>
     list_all (\<lambda>run. list_all (\<lambda>p. written rnd lvl k (draws st)
                                       (pieceAt (newBoard st) (nat (row p)) (nat (col p)))) run)
       (explosions st)"







section \<open>The falling-pill game (PillsGame): data model\<close>

text \<open>
  The pill board is a \<open>Block[][]\<close> of \<open>GRID_ROWS\<close> rows and \<open>GRID_COLS\<close> columns.
  The copies of the game in the repository use 20 x 10 (the two current copies, with
  the same game logic) and 16 x 8 (an older copy, whose \<open>checkMatches\<close> neither removes
  duplicate positions nor tests \<open>gameOver\<close>). The operations below are those of the
  current copies; they take the two dimensions as parameters \<open>R\<close> and \<open>C\<close>, and
  \<open>GRID_ROWS\<close> and \<open>GRID_COLS\<close> are the values of the current copies.
\<close>

datatype BlockType = EMPTY | RED | BLUE | YELLOW | GREEN

record Block =
  type :: BlockType
  isVirus :: bool

datatype Orientation = horizontal | vertical

record Pill =
  pos1 :: Position
  pos2 :: Position
  color1 :: BlockType
  color2 :: BlockType
  orientation :: Orientation

type_synonym Grid = "Block list list"

definition GRID_COLS :: nat where
  "GRID_COLS = 10"

definition GRID_ROWS :: nat where
  "GRID_ROWS = 20"

definition emptyBlock :: Block where
  "emptyBlock = \<lparr>type = EMPTY, isVirus = False\<rparr>"

text \<open>\<open>createEmptyGrid\<close>: \<open>R\<close> rows of \<open>C\<close> empty, non-virus blocks.\<close>

definition createEmptyGrid :: "nat \<Rightarrow> nat \<Rightarrow> Grid" where
  "createEmptyGrid R C = replicate R (replicate C emptyBlock)"

text \<open>
  Every grid the game holds has the shape \<open>createEmptyGrid\<close> gives it: all later writes
  replace a cell of an existing row. The operations read \<open>grid[r][c]\<close> only at indices
  below the two constants, so on such a grid no read is out of range.
\<close>

definition wf_grid :: "nat \<Rightarrow> nat \<Rightarrow> Grid \<Rightarrow> bool" where
  "wf_grid R C g \<longleftrightarrow> length g = R \<and> list_all (\<lambda>rw. length rw = C) g"

definition cell :: "Grid \<Rightarrow> nat \<Rightarrow> nat \<Rightarrow> Block" where
  "cell g r c = g ! r ! c"

definition setCell :: "Grid \<Rightarrow> nat \<Rightarrow> nat \<Rightarrow> Block \<Rightarrow> Grid" where
  "setCell g r c b = g[r := (g ! r)[c := b]]"

text \<open>
  The writes of the game are writes to cells of the grid: the positions in \<open>toClear\<close> are
  cells of the grid (lemma \<open>toClear_cells\<close> below), the gravity loop writes rows up to
  \<open>R - 1\<close>, and a pill is locked where \<open>canMove\<close> let it go.
\<close>

text \<open>\<open>grid[pos.row][pos.col]\<close> for a position that passed \<open>isValidPos\<close>.\<close>

definition cellAt :: "Grid \<Rightarrow> Position \<Rightarrow> Block" where
  "cellAt g p = cell g (nat (row p)) (nat (col p))"

section \<open>PieceController: \<open>isValidPos\<close> and \<open>canMove\<close>\<close>

definition isValidPos :: "nat \<Rightarrow> nat \<Rightarrow> Position \<Rightarrow> bool" where
  "isValidPos R C pos \<longleftrightarrow> row pos \<ge> 0 \<and> row pos < int R \<and> col pos \<ge> 0 \<and> col pos < int C"

definition canMove :: "nat \<Rightarrow> nat \<Rightarrow> Grid \<Rightarrow> Pill \<Rightarrow> int \<Rightarrow> int \<Rightarrow> bool" where
  "canMove R C grid pill dRow dCol =
     (let next1 = \<lparr>row = row (pos1 pill) + dRow, col = col (pos1 pill) + dCol\<rparr>;
          next2 = \<lparr>row = row (pos2 pill) + dRow, col = col (pos2 pill) + dCol\<rparr>
      in if \<not> isValidPos R C next1 \<or> \<not> isValidPos R C next2 then False
         else if type (cellAt grid next1) \<noteq> EMPTY then False
         else if type (cellAt grid next2) \<noteq> EMPTY then False
         else True)"

section \<open>Spawning a pill\<close>

text \<open>
  The state variables of the component. Every function of the component is created anew
  at each render and reads the state variables of that render (its closure); a state
  setter changes what the next render will see, not the variables of the closure that is
  running. So each function below takes the closure \<open>cl\<close>, the state of the render that
  created it, and the component state \<open>s\<close> that the setters update.

  \<open>Math.random\<close> is made explicit: each call of
  \<open>Math.floor(Math.random() * types.length)\<close> is a natural number argument, reduced into
  the range of the index. The alert shown on game over is presentation only.
\<close>

record GameState =
  grid :: Grid
  activePill :: "Pill option"
  score :: nat
  level :: nat
  gameOver :: bool

definition pillTypes :: "BlockType list" where
  "pillTypes = [RED, BLUE, YELLOW]"

definition randomType :: "nat \<Rightarrow> BlockType" where
  "randomType d = pillTypes ! (d mod length pillTypes)"

definition spawnPill :: "GameState \<Rightarrow> nat \<Rightarrow> nat \<Rightarrow> GameState \<Rightarrow> GameState" where
  "spawnPill cl d1 d2 s =
     (if grid cl = [] \<or> gameOver cl then s
      else let newPill = \<lparr>pos1 = \<lparr>row = 0, col = 3\<rparr>, pos2 = \<lparr>row = 0, col = 4\<rparr>,
                           color1 = randomType d1, color2 = randomType d2,
                           orientation = horizontal\<rparr>
           in if type (cell (grid cl) 0 3) \<noteq> EMPTY \<or> type (cell (grid cl) 0 4) \<noteq> EMPTY
              then s\<lparr>gameOver := True\<rparr>
              else s\<lparr>activePill := Some newPill\<rparr>)"

text \<open>
  The copy of the game with a next-pill preview keeps two more state variables; its
  \<open>spawnPill\<close> takes the colours from the preview and has a fallback when there is none.
\<close>

record GameStateNext = GameState +
  nextPillColors :: "(BlockType \<times> BlockType) option"
  speed :: nat

definition GAME_SPEED :: nat where
  "GAME_SPEED = 600"

definition spawnPillNext :: "GameStateNext \<Rightarrow> nat \<Rightarrow> nat \<Rightarrow> GameStateNext \<Rightarrow> GameStateNext" where
  "spawnPillNext cl d1 d2 s =
     (if grid cl = [] \<or> gameOver cl then s
      else case nextPillColors cl of
        None \<Rightarrow> s\<lparr>nextPillColors := Some (randomType d1, randomType d2)\<rparr>
      | Some (c1, c2) \<Rightarrow>
          let newPill = \<lparr>pos1 = \<lparr>row = 0, col = 3\<rparr>, pos2 = \<lparr>row = 0, col = 4\<rparr>,
                         color1 = c1, color2 = c2, orientation = horizontal\<rparr>
          in if type (cell (grid cl) 0 3) \<noteq> EMPTY \<or> type (cell (grid cl) 0 4) \<noteq> EMPTY
             then s\<lparr>gameOver := True\<rparr>
             else s\<lparr>activePill := Some newPill, speed := GAME_SPEED,
                    nextPillColors := Some (randomType d1, randomType d2)\<rparr>)"

definition spawnBlocked :: "Grid \<Rightarrow> bool" where
  "spawnBlocked g \<longleftrightarrow> type (cell g 0 3) \<noteq> EMPTY \<or> type (cell g 0 4) \<noteq> EMPTY"

section \<open>The falling-pill game: match detection, gravity and the cascade\<close>

text \<open>
  \<open>checkMatches\<close> scans every row and then every column with the same loop. The loop is
  written once here: \<open>cellType i\<close> is the type of the \<open>i\<close>-th cell of the line, and
  \<open>mk j\<close> is the position of its \<open>j\<close>-th cell (\<open>{row: r, col: j}\<close> in a row,
  \<open>{row: j, col: c}\<close> in a column). The loop state is \<open>count\<close>, \<open>currentType\<close> and
  the list \<open>toClear\<close>.
\<close>

text \<open>\<open>for (let k = 1; k <= count; k++) toClear.push(mk (e - k))\<close>\<close>

definition pushRun :: "(int \<Rightarrow> Position) \<Rightarrow> int \<Rightarrow> nat \<Rightarrow> Position list \<Rightarrow> Position list" where
  "pushRun mk e count toClear = toClear @ map (\<lambda>k. mk (e - int k)) [1..<count + 1]"

definition scanStep :: "(nat \<Rightarrow> BlockType) \<Rightarrow> (int \<Rightarrow> Position) \<Rightarrow>
    nat \<times> BlockType \<times> Position list \<Rightarrow> nat \<Rightarrow> nat \<times> BlockType \<times> Position list" where
  "scanStep cellType mk st i =
     (case st of (count, currentType, toClear) \<Rightarrow>
        if cellType i \<noteq> EMPTY \<and> cellType i = currentType
        then (count + 1, currentType, toClear)
        else (1, cellType i,
              if count \<ge> 3 then pushRun mk (int i) count toClear else toClear))"

definition scanLine :: "nat \<Rightarrow> (nat \<Rightarrow> BlockType) \<Rightarrow> (int \<Rightarrow> Position) \<Rightarrow>
    Position list \<Rightarrow> Position list" where
  "scanLine n cellType mk toClear0 =
     (case foldl (scanStep cellType mk) (0, EMPTY, toClear0) [0..<n] of
        (count, currentType, toClear) \<Rightarrow>
          if count \<ge> 3 \<and> currentType \<noteq> EMPTY then pushRun mk (int n) count toClear
          else toClear)"

text \<open>The list \<open>toClear\<close> that \<open>checkMatches\<close> builds: all rows, then all columns.\<close>

definition toClear :: "nat \<Rightarrow> nat \<Rightarrow> Grid \<Rightarrow> Position list" where
  "toClear R C g =
     (let horizontal = foldl (\<lambda>tc r. scanLine C (\<lambda>c. type (cell g r c))
                                 (\<lambda>j. \<lparr>row = int r, col = j\<rparr>) tc) [] [0..<R]
      in foldl (\<lambda>tc c. scanLine R (\<lambda>r. type (cell g r c))
                  (\<lambda>j. \<lparr>row = j, col = int c\<rparr>) tc) horizontal [0..<C])"

text \<open>\<open>Array.prototype.findIndex\<close>: the index of the first match, or \<open>-1\<close>.\<close>

fun findIndex :: "('a \<Rightarrow> bool) \<Rightarrow> 'a list \<Rightarrow> int" where
  "findIndex P [] = - 1"
| "findIndex P (a # as) =
     (if P a then 0 else (let j = findIndex P as in if j < 0 then - 1 else j + 1))"

text \<open>
  \<open>toClear.filter((v, i, a) => a.findIndex(t => t.row === v.row && t.col === v.col) === i)\<close>:
  the first occurrence of every position.
\<close>

definition uniqueClear :: "Position list \<Rightarrow> Position list" where
  "uniqueClear tc =
     map snd (filter (\<lambda>(i, v). findIndex (\<lambda>t. row t = row v \<and> col t = col v) tc = int i)
                (enumerate 0 tc))"

definition clearCells :: "Grid \<Rightarrow> Position list \<Rightarrow> Grid" where
  "clearCells g ps = foldl (\<lambda>newGrid p. setCell newGrid (nat (row p)) (nat (col p)) emptyBlock) g ps"

text \<open>
  One pass of \<open>applyGravity\<close>: every column from left to right, every row from
  \<open>R - 2\<close> up to 0; the result is the new grid and the flag \<open>moved\<close>.
\<close>

definition gravityCell :: "Grid \<times> bool \<Rightarrow> nat \<times> nat \<Rightarrow> Grid \<times> bool" where
  "gravityCell gm rc =
     (case gm of (newGrid, moved) \<Rightarrow> case rc of (r, c) \<Rightarrow>
        if type (cell newGrid r c) \<noteq> EMPTY \<and> \<not> isVirus (cell newGrid r c) \<and>
           type (cell newGrid (r + 1) c) = EMPTY
        then (setCell (setCell newGrid (r + 1) c (cell newGrid r c)) r c emptyBlock, True)
        else (newGrid, moved))"

definition gravityOrder :: "nat \<Rightarrow> nat \<Rightarrow> (nat \<times> nat) list" where
  "gravityOrder R C = concat (map (\<lambda>c. map (\<lambda>r. (r, c)) (rev [0..<R - 1])) [0..<C])"

definition gravityPass :: "nat \<Rightarrow> nat \<Rightarrow> Grid \<Rightarrow> Grid \<times> bool" where
  "gravityPass R C g = foldl gravityCell (g, False) (gravityOrder R C)"

text \<open>
  The cascade: \<open>checkMatches\<close> clears the matched cells and schedules \<open>applyGravity\<close>,
  which reschedules itself while a pass moved a cell and then calls \<open>checkMatches\<close>
  again; \<open>checkMatches\<close> without a match ends the cascade (and spawns the next pill).
  Each scheduled call takes one unit of fuel, and \<open>None\<close> is a cascade that has not ended
  within the fuel. \<open>over\<close> is the \<open>gameOver\<close> flag both functions test on entry. The
  result is the final grid, the score and the number of clearing steps.
\<close>

fun checkMatches :: "nat \<Rightarrow> nat \<Rightarrow> nat \<Rightarrow> bool \<Rightarrow> Grid \<Rightarrow> nat \<Rightarrow> nat \<Rightarrow> (Grid \<times> nat \<times> nat) option"
  and applyGravity :: "nat \<Rightarrow> nat \<Rightarrow> nat \<Rightarrow> bool \<Rightarrow> Grid \<Rightarrow> nat \<Rightarrow> nat \<Rightarrow> (Grid \<times> nat \<times> nat) option" where
  "checkMatches 0 R C over currentGrid sc steps = None"
| "checkMatches (Suc fuel) R C over currentGrid sc steps =
     (if over then Some (currentGrid, sc, steps)
      else let tc = toClear R C currentGrid
           in if length tc > 0
              then (let uc = uniqueClear tc;
                        newGrid = clearCells currentGrid uc
                    in applyGravity fuel R C over newGrid (sc + length uc * 100) (steps + 1))
              else Some (currentGrid, sc, steps))"
| "applyGravity 0 R C over currentGrid sc steps = None"
| "applyGravity (Suc fuel) R C over currentGrid sc steps =
     (if over then Some (currentGrid, sc, steps)
      else case gravityPass R C currentGrid of
             (newGrid, moved) \<Rightarrow>
               if moved then applyGravity fuel R C over newGrid sc steps
               else checkMatches fuel R C over newGrid sc steps)"

text \<open>
  The timer tick. \<open>gameStep\<close> moves the active pill down one row, or, when it cannot
  move, calls \<open>lockPill\<close>: the pill is written into a copy of the grid, the copy becomes
  the state, and \<open>checkMatches\<close> is scheduled on the copy. The cascade runs in the
  closure of the render that locked the pill, and when it finds no match it calls
  \<open>spawnPill\<close> of that same closure, whose \<open>grid\<close> is the grid before the lock. (No
  other tick runs in between: the interval is stopped as soon as the active pill is
  null.) \<open>None\<close> is a cascade that has not ended within the fuel.
\<close>

definition lockedGrid :: "Grid \<Rightarrow> Pill \<Rightarrow> Grid" where
  "lockedGrid g pill =
     setCell (setCell g (nat (row (pos1 pill))) (nat (col (pos1 pill)))
                \<lparr>type = color1 pill, isVirus = False\<rparr>)
       (nat (row (pos2 pill))) (nat (col (pos2 pill))) \<lparr>type = color2 pill, isVirus = False\<rparr>"

definition gameStep :: "nat \<Rightarrow> nat \<Rightarrow> nat \<Rightarrow> nat \<Rightarrow> nat \<Rightarrow> GameState \<Rightarrow> GameState \<Rightarrow> GameState option" where
  "gameStep fuel R C d1 d2 cl s =
     (case activePill cl of
        None \<Rightarrow> Some s
      | Some pill \<Rightarrow>
          if gameOver cl then Some s
          else if canMove R C (grid cl) pill 1 0
          then Some (s\<lparr>activePill :=
                 Some (pill\<lparr>pos1 := (pos1 pill)\<lparr>row := row (pos1 pill) + 1\<rparr>,
                            pos2 := (pos2 pill)\<lparr>row := row (pos2 pill) + 1\<rparr>\<rparr>)\<rparr>)
          else (let newGrid = lockedGrid (grid cl) pill;
                    s1 = s\<lparr>grid := newGrid, activePill := None\<rparr>
                in case checkMatches fuel R C (gameOver cl) newGrid (score s1) 0 of
                     None \<Rightarrow> None
                   | Some (g', sc', n) \<Rightarrow>
                       Some (spawnPill cl d1 d2 (s1\<lparr>grid := g', score := sc'\<rparr>))))"

definition gameStepNext :: "nat \<Rightarrow> nat \<Rightarrow> nat \<Rightarrow> nat \<Rightarrow> nat \<Rightarrow> GameStateNext \<Rightarrow> GameStateNext \<Rightarrow> GameStateNext option" where
  "gameStepNext fuel R C d1 d2 cl s =
     (case activePill cl of
        None \<Rightarrow> Some s
      | Some pill \<Rightarrow>
          if gameOver cl then Some s
          else if canMove R C (grid cl) pill 1 0
          then Some (s\<lparr>activePill :=
                 Some (pill\<lparr>pos1 := (pos1 pill)\<lparr>row := row (pos1 pill) + 1\<rparr>,
                            pos2 := (pos2 pill)\<lparr>row := row (pos2 pill) + 1\<rparr>\<rparr>)\<rparr>)
          else (let newGrid = lockedGrid (grid cl) pill;
                    s1 = s\<lparr>grid := newGrid, activePill := None\<rparr>
                in case checkMatches fuel R C (gameOver cl) newGrid (score s1) 0 of
                     None \<Rightarrow> None
                   | Some (g', sc', n) \<Rightarrow>
                       Some (spawnPillNext cl d1 d2 (s1\<lparr>grid := g', score := sc'\<rparr>))))"

text \<open>Reading grids from rows of letters, for concrete inputs: a capital letter is a virus.\<close>

definition blockOf :: "char \<Rightarrow> Block" where
  "blockOf ch =
     (if ch = CHR ''r'' then \<lparr>type = RED, isVirus = False\<rparr>
      else if ch = CHR ''b'' then \<lparr>type = BLUE, isVirus = False\<rparr>
      else if ch = CHR ''y'' then \<lparr>type = YELLOW, isVirus = False\<rparr>
      else if ch = CHR ''g'' then \<lparr>type = GREEN, isVirus = False\<rparr>
      else if ch = CHR ''R'' then \<lparr>type = RED, isVirus = True\<rparr>
      else if ch = CHR ''B'' then \<lparr>type = BLUE, isVirus = True\<rparr>
      else if ch = CHR ''Y'' then \<lparr>type = YELLOW, isVirus = True\<rparr>
      else emptyBlock)"

definition gridOf :: "string list \<Rightarrow> Grid" where
  "gridOf rows = map (map blockOf) rows"

section \<open>The falling-pill game: notions used in the properties\<close>

text \<open>
  A line (a row or a column, given by the types of its cells) contains three or more
  consecutive cells with equal non-EMPTY types when three consecutive cells do.
  \<open>noThreeInLine\<close> says that no row and no column of the grid does.
  \<open>inRun n cellType j\<close> says that cell \<open>j\<close> lies in such a group, \<open>matched\<close> that a
  cell of the grid lies in one along its row or along its column, and \<open>matchedCells\<close>
  lists those cells.
\<close>

definition threeInLine :: "nat \<Rightarrow> (nat \<Rightarrow> BlockType) \<Rightarrow> bool" where
  "threeInLine n cellType \<longleftrightarrow>
     list_ex (\<lambda>a. a + 3 \<le> n \<and> cellType a \<noteq> EMPTY \<and>
                cellType (a + 1) = cellType a \<and> cellType (a + 2) = cellType a) [0..<n]"

definition noThreeInLine :: "nat \<Rightarrow> nat \<Rightarrow> Grid \<Rightarrow> bool" where
  "noThreeInLine R C g \<longleftrightarrow>
     list_all (\<lambda>r. \<not> threeInLine C (\<lambda>c. type (cell g r c))) [0..<R] \<and>
     list_all (\<lambda>c. \<not> threeInLine R (\<lambda>r. type (cell g r c))) [0..<C]"

definition inRun :: "nat \<Rightarrow> (nat \<Rightarrow> BlockType) \<Rightarrow> nat \<Rightarrow> bool" where
  "inRun n cellType j \<longleftrightarrow>
     list_ex (\<lambda>a. a \<le> j \<and> j < a + 3 \<and> a + 3 \<le> n \<and> cellType a \<noteq> EMPTY \<and>
                cellType (a + 1) = cellType a \<and> cellType (a + 2) = cellType a) [0..<n]"

definition matched :: "nat \<Rightarrow> nat \<Rightarrow> Grid \<Rightarrow> nat \<Rightarrow> nat \<Rightarrow> bool" where
  "matched R C g r c \<longleftrightarrow>
     r < R \<and> c < C \<and>
     (inRun C (\<lambda>c'. type (cell g r c')) c \<or> inRun R (\<lambda>r'. type (cell g r' c)) r)"

definition matchedCells :: "nat \<Rightarrow> nat \<Rightarrow> Grid \<Rightarrow> (nat \<times> nat) list" where
  "matchedCells R C g = filter (\<lambda>(r, c). matched R C g r c) (List.product [0..<R] [0..<C])"

text \<open>
  For the proofs about the scan: a window of three equal non-EMPTY cells starting at
  \<open>a\<close>, the cells covered by such a window that ends before \<open>m\<close>, and the loop
  invariant of the scan after \<open>i\<close> cells (the current run is the \<open>count\<close> cells before
  \<open>i\<close>, it has type \<open>cur\<close>, and it cannot be extended to the left).
\<close>

definition win :: "(nat \<Rightarrow> BlockType) \<Rightarrow> nat \<Rightarrow> bool" where
  "win f a \<longleftrightarrow> f a \<noteq> EMPTY \<and> f (a + 1) = f a \<and> f (a + 2) = f a"

definition runCells :: "(nat \<Rightarrow> BlockType) \<Rightarrow> nat \<Rightarrow> nat set" where
  "runCells f m = {j. \<exists>a. a \<le> j \<and> j < a + 3 \<and> a + 3 \<le> m \<and> win f a}"

definition scanInv :: "(nat \<Rightarrow> BlockType) \<Rightarrow> nat \<Rightarrow> nat \<Rightarrow> BlockType \<Rightarrow> bool" where
  "scanInv f i count cur \<longleftrightarrow>
     count \<le> i \<and> (0 < i \<longrightarrow> 1 \<le> count \<and> cur = f (i - 1)) \<and> (i = 0 \<longrightarrow> cur = EMPTY) \<and>
     (\<forall>j. i - count \<le> j \<and> j < i \<longrightarrow> f j = cur) \<and>
     (cur = EMPTY \<longrightarrow> count \<le> 1) \<and>
     (cur \<noteq> EMPTY \<and> count < i \<longrightarrow> f (i - count - 1) \<noteq> cur)"

text \<open>
  For the proofs about gravity: the test of the inner loop of \<open>applyGravity\<close>; what it
  means for a grid \<open>g'\<close> to keep the viruses of \<open>g\<close> (every virus cell is unchanged, and
  every changed cell holds no virus); the occupied cells of a grid, and their total height
  above the floor, which every falling step and every clearing step decreases.
\<close>

definition falls :: "Grid \<Rightarrow> nat \<Rightarrow> nat \<Rightarrow> bool" where
  "falls g r c \<longleftrightarrow> type (cell g r c) \<noteq> EMPTY \<and> \<not> isVirus (cell g r c) \<and> type (cell g (r + 1) c) = EMPTY"

definition keepsViruses :: "Grid \<Rightarrow> Grid \<Rightarrow> bool" where
  "keepsViruses g g' \<longleftrightarrow>
     (\<forall>r c. (isVirus (cell g r c) \<and> type (cell g r c) \<noteq> EMPTY \<longrightarrow> cell g' r c = cell g r c) \<and>
            (cell g' r c \<noteq> cell g r c \<longrightarrow> \<not> isVirus (cell g' r c)))"

definition occ :: "nat \<Rightarrow> nat \<Rightarrow> Grid \<Rightarrow> (nat \<times> nat) set" where
  "occ R C g = {(r, c). r < R \<and> c < C \<and> type (cell g r c) \<noteq> EMPTY}"

definition pot :: "nat \<Rightarrow> nat \<Rightarrow> Grid \<Rightarrow> nat" where
  "pot R C g = (\<Sum>(r, c) \<in> occ R C g. R - r)"

definition posOf :: "nat \<Rightarrow> nat \<Rightarrow> Position" where
  "posOf r c = \<lparr>row = int r, col = int c\<rparr>"

section \<open>The falling-pill game: concrete grids\<close>

text \<open>
  Grids of the game's size, 20 x 10: one on which a locked pill starts a cascade of two
  clearing steps (the red run, then the yellow run that falls into place), the grid
  the cascade ends with, a grid with two floating blocks, a virus over an empty cell and a
  block resting on the virus, and the grid one pass of gravity makes of it. The two
  small grids are 4 x 5.
\<close>

definition cascadeGrid :: Grid where
  "cascadeGrid = gridOf
     [''..........'', ''..........'', ''..........'', ''..........'', ''..........'',
      ''..........'', ''..........'', ''..........'', ''..........'', ''..........'',
      ''..........'', ''..........'', ''..........'', ''..........'', ''..........'',
      ''..........'', ''..........'',
      ''.....g....'',
      ''.yy..B....'',
      ''rrry......'']"

definition floatGrid :: Grid where
  "floatGrid = gridOf
     [''..........'', ''..........'', ''..........'', ''..........'', ''..........'',
      ''..........'', ''..........'', ''..........'', ''..........'', ''..........'',
      ''..........'', ''..........'', ''..........'', ''..........'', ''..........'',
      ''..........'', ''..........'',
      ''.....g....'',
      ''.yy..B....'',
      ''....y.....'']"

definition settledGrid :: Grid where
  "settledGrid = gridOf
     [''..........'', ''..........'', ''..........'', ''..........'', ''..........'',
      ''..........'', ''..........'', ''..........'', ''..........'', ''..........'',
      ''..........'', ''..........'', ''..........'', ''..........'', ''..........'',
      ''..........'', ''..........'',
      ''.....g....'',
      ''.....B....'',
      ''.yy.y.....'']"

definition finalGrid :: Grid where
  "finalGrid = gridOf
     [''..........'', ''..........'', ''..........'', ''..........'', ''..........'',
      ''..........'', ''..........'', ''..........'', ''..........'', ''..........'',
      ''..........'', ''..........'', ''..........'', ''..........'', ''..........'',
      ''..........'', ''..........'',
      ''.....g....'',
      ''.....B....'',
      ''..........'']"

definition smallGrid :: Grid where
  "smallGrid = gridOf [''.....'', ''.....'', ''.yy.B'', ''rrry.'']"

definition smallStable :: Grid where
  "smallStable = gridOf [''.....'', ''.....'', ''....B'', ''.yy.y'']"

text \<open>
  A grid whose column 3 is stacked up to row 1 (no three equal in line), with a yellow
  pill still at the spawn position; it is the state of the render in which the next tick
  runs.
\<close>

definition stackGrid :: Grid where
  "stackGrid = gridOf
     [''..........'', ''...r......'', ''...r......'', ''...b......'', ''...b......'',
      ''...r......'', ''...r......'', ''...b......'', ''...b......'', ''...r......'',
      ''...r......'', ''...b......'', ''...b......'', ''...r......'', ''...r......'',
      ''...b......'', ''...b......'', ''...r......'', ''...r......'', ''...b......'']"

definition spawnPosPill :: Pill where
  "spawnPosPill = \<lparr>pos1 = \<lparr>row = 0, col = 3\<rparr>, pos2 = \<lparr>row = 0, col = 4\<rparr>,
                    color1 = YELLOW, color2 = YELLOW, orientation = horizontal\<rparr>"

definition stackState :: GameState where
  "stackState = \<lparr>grid = stackGrid, activePill = Some spawnPosPill, score = 0, level = 1,
                  gameOver = False\<rparr>"

definition stackStateNext :: GameStateNext where
  "stackStateNext = \<lparr>grid = stackGrid, activePill = Some spawnPosPill, score = 0, level = 1,
                  gameOver = False, nextPillColors = Some (YELLOW, BLUE), speed = 600\<rparr>"

section \<open>Properties of the piece controller\<close>

text \<open>
  C7. For every pill, grid and delta, \<open>canMove\<close> is true if and only if both cells of the
  pill, after the delta, are inside the grid bounds and the grid cells at both target
  positions are EMPTY.
\<close>

theorem canMove_iff:
  "canMove R C g pill dRow dCol \<longleftrightarrow>
     isValidPos R C \<lparr>row = row (pos1 pill) + dRow, col = col (pos1 pill) + dCol\<rparr> \<and>
     isValidPos R C \<lparr>row = row (pos2 pill) + dRow, col = col (pos2 pill) + dCol\<rparr> \<and>
     type (cellAt g \<lparr>row = row (pos1 pill) + dRow, col = col (pos1 pill) + dCol\<rparr>) = EMPTY \<and>
     type (cellAt g \<lparr>row = row (pos2 pill) + dRow, col = col (pos2 pill) + dCol\<rparr>) = EMPTY"
  by (auto simp: canMove_def Let_def)

theorem canMove_iff_witness:
  "canMove GRID_ROWS GRID_COLS (createEmptyGrid GRID_ROWS GRID_COLS)
     \<lparr>pos1 = \<lparr>row = 0, col = 3\<rparr>, pos2 = \<lparr>row = 0, col = 4\<rparr>,
      color1 = RED, color2 = BLUE, orientation = horizontal\<rparr> 1 0
   \<and> \<not> canMove GRID_ROWS GRID_COLS (createEmptyGrid GRID_ROWS GRID_COLS)
     \<lparr>pos1 = \<lparr>row = 0, col = 0\<rparr>, pos2 = \<lparr>row = 0, col = 1\<rparr>,
      color1 = RED, color2 = BLUE, orientation = horizontal\<rparr> 0 (- 1)"
  unfolding canMove_iff
  by (simp add: isValidPos_def cellAt_def cell_def createEmptyGrid_def emptyBlock_def
      GRID_ROWS_def GRID_COLS_def)

section \<open>The swap board: invariants of a resolution pass\<close>

lemma randomPiece_in: "1 \<le> lvl \<Longrightarrow> randomPiece rnd k (getPiecesForLevel lvl) \<in> set ALL_PIECES"
proof -
  assume l: "1 \<le> lvl"
  define n where "n = nat (min (INITIAL_PIECE_COUNT + (lvl - 1)) (int (length ALL_PIECES)))"
  have n: "0 < n" "n \<le> length ALL_PIECES"
    using l by (auto simp: n_def INITIAL_PIECE_COUNT_def ALL_PIECES_def)
  have g: "getPiecesForLevel lvl = take n ALL_PIECES"
    using l by (simp add: getPiecesForLevel_def slice0_def n_def Let_def INITIAL_PIECE_COUNT_def)
  have len: "length (take n ALL_PIECES) = n" using n by simp
  have "take n ALL_PIECES ! (rnd k mod n) \<in> set (take n ALL_PIECES)"
    using n len by (metis mod_less_divisor nth_mem)
  then have "take n ALL_PIECES ! (rnd k mod n) \<in> set ALL_PIECES"
    by (meson in_set_takeD)
  then show ?thesis using n len by (auto simp: randomPiece_def g)
qed

lemma createSpecialPiece_symbol:
  "1 \<le> lvl \<Longrightarrow> GamePiece.type (fst (createSpecialPiece rnd lvl k m)) \<in> symbols"
  by (auto simp: createSpecialPiece_def symbols_def randomPiece_in)

lemma fullBoard_setPiece:
  assumes "fullBoard b" "r < BOARD_SIZE" "c < BOARD_SIZE" "GamePiece.type p \<in> symbols"
  shows "fullBoard (setPiece b r c p)"
proof -
  have lb: "length b = BOARD_SIZE" and rw: "\<And>rw. rw \<in> set b \<Longrightarrow> length rw = BOARD_SIZE \<and> (\<forall>q \<in> set rw. GamePiece.type q \<in> symbols)"
    using assms(1) by (auto simp: fullBoard_def)
  have br: "b ! r \<in> set b" using lb assms(2) by simp
  have lr: "length (b ! r) = BOARD_SIZE" using rw[OF br] by simp
  have js: "jsSet undefinedPiece (b ! r) c p = (b ! r)[c := p]"
    using lr assms(3) by (simp add: jsSet_def)
  have new: "length ((b ! r)[c := p]) = BOARD_SIZE \<and> (\<forall>q \<in> set ((b ! r)[c := p]). GamePiece.type q \<in> symbols)"
    using rw[OF br] assms(4) by (auto dest!: set_update_subset_insert[THEN subsetD])
  show ?thesis
    unfolding fullBoard_def setPiece_def js
    using lb rw new by (auto dest!: set_update_subset_insert[THEN subsetD])
qed

lemma countRight_le:
  "c + m \<le> BOARD_SIZE \<Longrightarrow> c + countRight b r c t m \<le> BOARD_SIZE"
proof (induction b r c t m rule: countRight.induct)
  case (1 b r c t m)
  show ?case
    using 1 by (subst countRight.simps) auto
qed

lemma countDown_le:
  "r + m \<le> BOARD_SIZE \<Longrightarrow> r + countDown b r c t m \<le> BOARD_SIZE"
proof (induction b r c t m rule: countDown.induct)
  case (1 b r c t m)
  show ?case
    using 1 by (subst countDown.simps) auto
qed

lemma refill_fold_full:
  assumes "1 \<le> lvl" "\<And>i. i \<in> set is \<Longrightarrow> fst (mk i) < BOARD_SIZE \<and> snd (mk i) < BOARD_SIZE"
    and "fullBoard (fst bk)"
  shows "fullBoard (fst (foldl (refill rnd lvl mk) bk is))"
  using assms(2,3)
proof (induction "is" arbitrary: bk)
  case Nil
  then show ?case by simp
next
  case (Cons i "is")
  have "fullBoard (fst (refill rnd lvl mk bk i))"
    using Cons.prems assms(1)
    by (cases bk) (auto simp: refill_def symbols_def randomPiece_in intro!: fullBoard_setPiece)
  then show ?case using Cons by simp
qed

lemma resolveRun_newBoard:
  "newBoard (resolveRun rnd lvl mk m st) =
     fst (foldl (refill rnd lvl mk)
            (setPiece (newBoard st) (fst (mk 0)) (snd (mk 0)) (fst (createSpecialPiece rnd lvl (draws st) m)),
             snd (createSpecialPiece rnd lvl (draws st) m)) [1..<m])"
  by (simp add: resolveRun_def Let_def split: prod.splits)

lemma resolveRun_full:
  assumes "1 \<le> lvl" "\<And>i. i < m \<Longrightarrow> fst (mk i) < BOARD_SIZE \<and> snd (mk i) < BOARD_SIZE"
    and "0 < m" "fullBoard (newBoard st)"
  shows "fullBoard (newBoard (resolveRun rnd lvl mk m st))"
  unfolding resolveRun_newBoard
  using assms by (intro refill_fold_full) (auto intro!: fullBoard_setPiece createSpecialPiece_symbol)

lemma scanRow_pres:
  assumes "\<And>st c m. P st \<Longrightarrow> 3 \<le> m \<Longrightarrow> c + m \<le> BOARD_SIZE \<Longrightarrow>
                   P (resolveRun rnd lvl (\<lambda>i. (r, c + i)) m st)"
    and "P st"
  shows "P (scanRow rnd lvl r c st)"
  using assms
proof (induction rnd lvl r c st rule: scanRow.induct)
  case (1 rnd lvl r c st)
  note step = "1.prems"(1)
  show ?case
  proof (cases "c < BOARD_SIZE - 2")
    case False
    then show ?thesis using 1 by (subst scanRow.simps) simp
  next
    case True
    define m where "m = countRight (newBoard st) r c (GamePiece.type (pieceAt (newBoard st) r c)) 1"
    have le: "c + m \<le> BOARD_SIZE" unfolding m_def using True by (intro countRight_le) simp
    show ?thesis
    proof (cases "3 \<le> m")
      case ge: True
      have "P (resolveRun rnd lvl (\<lambda>i. (r, c + i)) m st)"
        using step[OF "1.prems"(2) ge le] .
      then have "P (scanRow rnd lvl r (c + (m - 1) + 1) (resolveRun rnd lvl (\<lambda>i. (r, c + i)) m st))"
        using "1.IH"(1)[OF True refl, of m] ge m_def step by simp
      then show ?thesis using True ge by (subst scanRow.simps) (simp add: m_def Let_def)
    next
      case lt: False
      have "P (scanRow rnd lvl r (c + 1) st)"
        using "1.IH"(2)[OF True refl, of m] lt m_def "1.prems" by simp
      then show ?thesis using True lt by (subst scanRow.simps) (simp add: m_def Let_def)
    qed
  qed
qed

lemma scanCol_pres:
  assumes "\<And>st r m. P st \<Longrightarrow> 3 \<le> m \<Longrightarrow> r + m \<le> BOARD_SIZE \<Longrightarrow>
                   P (resolveRun rnd lvl (\<lambda>i. (r + i, c)) m st)"
    and "P st"
  shows "P (scanCol rnd lvl c r st)"
  using assms
proof (induction rnd lvl c r st rule: scanCol.induct)
  case (1 rnd lvl c r st)
  note step = "1.prems"(1)
  show ?case
  proof (cases "r < BOARD_SIZE - 2")
    case False
    then show ?thesis using 1 by (subst scanCol.simps) simp
  next
    case True
    define m where "m = countDown (newBoard st) r c (GamePiece.type (pieceAt (newBoard st) r c)) 1"
    have le: "r + m \<le> BOARD_SIZE" unfolding m_def using True by (intro countDown_le) simp
    show ?thesis
    proof (cases "3 \<le> m")
      case ge: True
      have "P (resolveRun rnd lvl (\<lambda>i. (r + i, c)) m st)"
        using step[OF "1.prems"(2) ge le] .
      then have "P (scanCol rnd lvl c (r + (m - 1) + 1) (resolveRun rnd lvl (\<lambda>i. (r + i, c)) m st))"
        using "1.IH"(1)[OF True refl, of m] ge m_def step by simp
      then show ?thesis using True ge by (subst scanCol.simps) (simp add: m_def Let_def)
    next
      case lt: False
      have "P (scanCol rnd lvl c (r + 1) st)"
        using "1.IH"(2)[OF True refl, of m] lt m_def "1.prems" by simp
      then show ?thesis using True lt by (subst scanCol.simps) (simp add: m_def Let_def)
    qed
  qed
qed

lemma foldl_pres:
  assumes "\<And>s a. a \<in> set as \<Longrightarrow> P s \<Longrightarrow> P (f s a)" and "P s"
  shows "P (foldl f s as)"
  using assms by (induction as arbitrary: s) auto

lemma checkMatchesSwap_pres:
  assumes init: "P \<lparr>newBoard = b, matchFound = False, matchLength = 0, SwapState.score = sc,
                    explosions = [], draws = k\<rparr>"
    and h: "\<And>st r c m. P st \<Longrightarrow> r < BOARD_SIZE \<Longrightarrow> 3 \<le> m \<Longrightarrow> c + m \<le> BOARD_SIZE \<Longrightarrow>
                   P (resolveRun rnd lvl (\<lambda>i. (r, c + i)) m st)"
    and v: "\<And>st r c m. P st \<Longrightarrow> c < BOARD_SIZE \<Longrightarrow> 3 \<le> m \<Longrightarrow> r + m \<le> BOARD_SIZE \<Longrightarrow>
                   P (resolveRun rnd lvl (\<lambda>i. (r + i, c)) m st)"
  shows "P (checkMatchesSwap rnd lvl k sc b)"
  unfolding checkMatchesSwap_def Let_def
  apply (rule foldl_pres)
   apply (rule scanCol_pres)
    apply (rule v; simp)
   apply assumption
  apply (rule foldl_pres)
   apply (rule scanRow_pres)
    apply (rule h; simp)
   apply assumption
  apply (rule init)
  done

lemma checkMatchesSwap_full:
  assumes "1 \<le> lvl" "fullBoard b"
  shows "fullBoard (newBoard (checkMatchesSwap rnd lvl k sc b))"
  by (rule checkMatchesSwap_pres[where P = "\<lambda>st. fullBoard (newBoard st)"])
     (use assms in \<open>auto intro!: resolveRun_full\<close>)

lemma resolveRun_score:
  "SwapState.score (resolveRun rnd lvl mk m st) = SwapState.score st + m * 20"
  "explosions (resolveRun rnd lvl mk m st) =
     explosions st @ [map (\<lambda>i. \<lparr>row = int (fst (mk i)), col = int (snd (mk i))\<rparr>) [0..<m]]"
  by (simp_all add: resolveRun_def Let_def split: prod.splits)


lemma initializeBoard_full: "1 \<le> lvl \<Longrightarrow> fullBoard (initializeBoard rnd lvl)"
  by (auto simp: fullBoard_def initializeBoard_def symbols_def randomPiece_in)

text \<open>
  C1. \<open>createSpecialPiece\<close> tests \<open>length >= 4\<close> before \<open>length >= 5\<close>, so a run of
  five gives the bomb: the rainbow branch is never taken. On the scenario board (one
  horizontal run of five at row 2, columns 0 to 4) the pass leaves the bomb at row 2,
  column 0.
\<close>

theorem createSpecialPiece_run5:
  "createSpecialPiece rnd difficulty k 5 = (\<lparr>GamePiece.type = BOMB, isSpecial = Some True\<rparr>, k)
   \<and> pieceAt (newBoard (checkMatchesSwap (\<lambda>k. k) 1 0 0 scenarioBoard)) 2 0
       = \<lparr>GamePiece.type = BOMB, isSpecial = Some True\<rparr>
   \<and> BOMB \<noteq> RAINBOW"
proof -
  have "pieceAt (newBoard (checkMatchesSwap (\<lambda>k. k) 1 0 0 scenarioBoard)) 2 0
       = \<lparr>GamePiece.type = BOMB, isSpecial = Some True\<rparr>"
    by code_simp
  then show ?thesis by (simp add: createSpecialPiece_def BOMB_def RAINBOW_def)
qed

lemma fullBoard_scenario: "fullBoard scenarioBoard"
  by code_simp

lemma pieceAt_symbol:
  assumes "fullBoard b" "r < BOARD_SIZE" "c < BOARD_SIZE"
  shows "GamePiece.type (pieceAt b r c) \<in> symbols"
  using assms unfolding fullBoard_def pieceAt_def
  by (metis nth_mem)

lemma attemptSwap_full:
  assumes "fullBoard b" "onBoard p1" "onBoard p2"
  shows "fullBoard (fst (attemptSwap b p1 p2))"
  using assms
  by (auto simp: attemptSwap_def Let_def onBoard_def intro!: fullBoard_setPiece pieceAt_symbol)

section \<open>The swap board: what a resolved run writes\<close>

lemma writtenI:
  "k \<le> j \<Longrightarrow> j < k' \<Longrightarrow>
     written rnd lvl k k' \<lparr>GamePiece.type = randomPiece rnd j (getPiecesForLevel lvl), isSpecial = None\<rparr>"
  unfolding written_def list_ex_iff by auto

lemma written_mono:
  assumes "written rnd lvl k k' p" "k0 \<le> k" "k' \<le> k1"
  shows "written rnd lvl k0 k1 p"
proof -
  from assms(1) consider "p = \<lparr>GamePiece.type = BOMB, isSpecial = Some True\<rparr>"
    | "p = \<lparr>GamePiece.type = RAINBOW, isSpecial = Some True\<rparr>"
    | j where "k \<le> j" "j < k'" "p = \<lparr>GamePiece.type = randomPiece rnd j (getPiecesForLevel lvl), isSpecial = None\<rparr>"
    unfolding written_def list_ex_iff by auto
  then show ?thesis
  proof cases
    case 1 then show ?thesis by (simp add: written_def)
  next
    case 2 then show ?thesis by (simp add: written_def)
  next
    case 3
    then show ?thesis using writtenI[of k0 j k1 rnd lvl] assms(2,3) by simp
  qed
qed

lemma fullBoard_row:
  assumes "fullBoard b" "r < BOARD_SIZE"
  shows "length b = BOARD_SIZE" "length (b ! r) = BOARD_SIZE"
  using assms unfolding fullBoard_def by (simp_all add: nth_mem)

lemma setPiece_update:
  assumes "fullBoard b" "r < BOARD_SIZE" "c < BOARD_SIZE"
  shows "setPiece b r c p = b[r := (b ! r)[c := p]]"
  using fullBoard_row[OF assms(1,2)] assms(3) by (simp add: setPiece_def jsSet_def)

lemma pieceAt_setPiece:
  assumes "fullBoard b" "r < BOARD_SIZE" "c < BOARD_SIZE"
  shows "pieceAt (setPiece b r c p) r' c' = (if r' = r \<and> c' = c then p else pieceAt b r' c')"
proof -
  have lg: "r < length b" and lr: "c < length (b ! r)"
    using fullBoard_row[OF assms(1,2)] assms(2,3) by simp_all
  show ?thesis
  proof (cases "r' = r")
    case True
    then show ?thesis
      unfolding setPiece_update[OF assms] pieceAt_def using lg lr by (simp add: nth_list_update)
  next
    case False
    then show ?thesis
      unfolding setPiece_update[OF assms] pieceAt_def by simp
  qed
qed

lemma refill_fold_cells:
  assumes "1 \<le> lvl"
  shows "fullBoard b \<Longrightarrow> \<forall>i \<in> set is. fst (mk i) < BOARD_SIZE \<and> snd (mk i) < BOARD_SIZE \<Longrightarrow>
     fullBoard (fst (foldl (refill rnd lvl mk) (b, k) is)) \<and>
     snd (foldl (refill rnd lvl mk) (b, k) is) = k + length is \<and>
     (\<forall>r c. (r, c) \<notin> mk ` set is \<longrightarrow>
        pieceAt (fst (foldl (refill rnd lvl mk) (b, k) is)) r c = pieceAt b r c) \<and>
     (\<forall>i \<in> set is. written rnd lvl k (k + length is)
        (pieceAt (fst (foldl (refill rnd lvl mk) (b, k) is)) (fst (mk i)) (snd (mk i))))"
proof (induction "is" arbitrary: b k)
  case Nil
  then show ?case by simp
next
  case (Cons i "is")
  define p where "p = \<lparr>GamePiece.type = randomPiece rnd k (getPiecesForLevel lvl), isSpecial = None\<rparr>"
  define b1 where "b1 = setPiece b (fst (mk i)) (snd (mk i)) p"
  have on: "fst (mk i) < BOARD_SIZE" "snd (mk i) < BOARD_SIZE" using Cons.prems(2) by simp_all
  have rest: "\<forall>i \<in> set is. fst (mk i) < BOARD_SIZE \<and> snd (mk i) < BOARD_SIZE"
    using Cons.prems(2) by simp
  have sym: "GamePiece.type p \<in> symbols"
    using randomPiece_in[OF assms] by (simp add: p_def symbols_def)
  have fb1: "fullBoard b1" unfolding b1_def using Cons.prems(1) on sym by (rule fullBoard_setPiece)
  have step: "foldl (refill rnd lvl mk) (b, k) (i # is) = foldl (refill rnd lvl mk) (b1, k + 1) is"
    by (simp add: refill_def b1_def p_def)
  note IH = Cons.IH[OF fb1 rest, of "k + 1"]
  let ?res = "foldl (refill rnd lvl mk) (b1, k + 1) is"
  have cellb1: "\<And>r c. pieceAt b1 r c = (if r = fst (mk i) \<and> c = snd (mk i) then p else pieceAt b r c)"
    unfolding b1_def by (rule pieceAt_setPiece[OF Cons.prems(1) on])
  have c1: "fullBoard (fst ?res)" using IH by simp
  have c2: "snd ?res = k + length (i # is)" using IH by simp
  have c3: "pieceAt (fst ?res) r c = pieceAt b r c" if "(r, c) \<notin> mk ` set (i # is)" for r c
  proof -
    have "(r, c) \<notin> mk ` set is" and ne: "(r, c) \<noteq> mk i" using that by auto
    then have "pieceAt (fst ?res) r c = pieceAt b1 r c" using IH by blast
    also have "\<dots> = pieceAt b r c" using ne cellb1[of r c] by (cases "mk i") auto
    finally show ?thesis .
  qed
  have c4: "written rnd lvl k (k + length (i # is)) (pieceAt (fst ?res) (fst (mk i')) (snd (mk i')))"
    if "i' \<in> set (i # is)" for i'
  proof (cases "mk i' \<in> mk ` set is")
    case True
    then obtain i'' where i'': "i'' \<in> set is" "mk i' = mk i''" by auto
    have "written rnd lvl (k + 1) (k + 1 + length is) (pieceAt (fst ?res) (fst (mk i'')) (snd (mk i'')))"
      using IH i''(1) by blast
    then show ?thesis using written_mono[of rnd lvl "k + 1" "k + 1 + length is" _ k "k + length (i # is)"] i''(2)
      by simp
  next
    case False
    then have "i' \<notin> set is" by auto
    then have eq: "i' = i" using that by simp
    have "(fst (mk i), snd (mk i)) \<notin> mk ` set is" using False eq by simp
    then have "pieceAt (fst ?res) (fst (mk i)) (snd (mk i)) = pieceAt b1 (fst (mk i)) (snd (mk i))"
      using IH by blast
    also have "\<dots> = p" using cellb1 by simp
    finally show ?thesis unfolding eq p_def using writtenI[of k k "k + length (i # is)" rnd lvl] by simp
  qed
  show ?case unfolding step using c1 c2 c3 c4 by blast
qed

lemma createSpecialPiece_written:
  "written rnd lvl k (snd (createSpecialPiece rnd lvl k m)) (fst (createSpecialPiece rnd lvl k m)) \<and>
   k \<le> snd (createSpecialPiece rnd lvl k m)"
  using writtenI[of k k "k + 1" rnd lvl]
  by (simp add: createSpecialPiece_def written_def)

lemma resolveRun_fields:
  "matchFound (resolveRun rnd lvl mk m st) = True"
  "matchLength (resolveRun rnd lvl mk m st) = m"
  "draws (resolveRun rnd lvl mk m st) =
     snd (foldl (refill rnd lvl mk)
            (setPiece (newBoard st) (fst (mk 0)) (snd (mk 0)) (fst (createSpecialPiece rnd lvl (draws st) m)),
             snd (createSpecialPiece rnd lvl (draws st) m)) [1..<m])"
  by (simp_all add: resolveRun_def Let_def split: prod.splits)

lemma resolveRun_cells:
  assumes l: "1 \<le> lvl" and fb: "fullBoard (newBoard st)"
    and on: "\<forall>i < m. fst (mk i) < BOARD_SIZE \<and> snd (mk i) < BOARD_SIZE" and m: "0 < m"
  shows "fullBoard (newBoard (resolveRun rnd lvl mk m st))"
    and "draws st \<le> draws (resolveRun rnd lvl mk m st)"
    and "\<And>r c. (r, c) \<notin> mk ` {0..<m} \<Longrightarrow>
           pieceAt (newBoard (resolveRun rnd lvl mk m st)) r c = pieceAt (newBoard st) r c"
    and "\<And>i. i < m \<Longrightarrow> written rnd lvl (draws st) (draws (resolveRun rnd lvl mk m st))
           (pieceAt (newBoard (resolveRun rnd lvl mk m st)) (fst (mk i)) (snd (mk i)))"
proof -
  define sp where "sp = fst (createSpecialPiece rnd lvl (draws st) m)"
  define k1 where "k1 = snd (createSpecialPiece rnd lvl (draws st) m)"
  define b1 where "b1 = setPiece (newBoard st) (fst (mk 0)) (snd (mk 0)) sp"
  let ?res = "foldl (refill rnd lvl mk) (b1, k1) [1..<m]"
  have nb: "newBoard (resolveRun rnd lvl mk m st) = fst ?res"
    unfolding resolveRun_newBoard b1_def sp_def k1_def ..
  have dr: "draws (resolveRun rnd lvl mk m st) = snd ?res"
    unfolding resolveRun_fields b1_def sp_def k1_def ..
  have on0: "fst (mk 0) < BOARD_SIZE" "snd (mk 0) < BOARD_SIZE" using on m by simp_all
  have spw: "written rnd lvl (draws st) k1 sp" and k1: "draws st \<le> k1"
    using createSpecialPiece_written[of rnd lvl "draws st" m] by (simp_all add: sp_def k1_def)
  have sym: "GamePiece.type sp \<in> symbols" unfolding sp_def using l by (rule createSpecialPiece_symbol)
  have fb1: "fullBoard b1" unfolding b1_def using fb on0 sym by (rule fullBoard_setPiece)
  have cellb1: "\<And>r c. pieceAt b1 r c = (if r = fst (mk 0) \<and> c = snd (mk 0) then sp else pieceAt (newBoard st) r c)"
    unfolding b1_def by (rule pieceAt_setPiece[OF fb on0])
  have rest: "\<forall>i \<in> set [1..<m]. fst (mk i) < BOARD_SIZE \<and> snd (mk i) < BOARD_SIZE"
    using on by simp
  note F = refill_fold_cells[OF l fb1 rest, of rnd k1]
  have len: "snd ?res = k1 + (m - 1)" using F by simp
  show "fullBoard (newBoard (resolveRun rnd lvl mk m st))" unfolding nb using F by simp
  show "draws st \<le> draws (resolveRun rnd lvl mk m st)" unfolding dr len using k1 by simp
  show "pieceAt (newBoard (resolveRun rnd lvl mk m st)) r c = pieceAt (newBoard st) r c"
    if "(r, c) \<notin> mk ` {0..<m}" for r c
  proof -
    have "(r, c) \<notin> mk ` set [1..<m]" and ne: "(r, c) \<noteq> mk 0" using that m by auto
    then have "pieceAt (fst ?res) r c = pieceAt b1 r c" using F by blast
    also have "\<dots> = pieceAt (newBoard st) r c" using ne cellb1[of r c] by (cases "mk 0") auto
    finally show ?thesis unfolding nb .
  qed
  show "written rnd lvl (draws st) (draws (resolveRun rnd lvl mk m st))
           (pieceAt (newBoard (resolveRun rnd lvl mk m st)) (fst (mk i)) (snd (mk i)))"
    if "i < m" for i
  proof (cases "mk i \<in> mk ` set [1..<m]")
    case True
    then obtain i' where i': "i' \<in> set [1..<m]" "mk i = mk i'" by auto
    have "written rnd lvl k1 (k1 + length [1..<m]) (pieceAt (fst ?res) (fst (mk i')) (snd (mk i')))"
      using F i'(1) by blast
    then show ?thesis unfolding nb dr len i'(2)
      using written_mono[of rnd lvl k1 "k1 + length [1..<m]" _ "draws st" "k1 + (m - 1)"] k1 by simp
  next
    case False
    then have "i = 0" using that by (cases i) auto
    have "(fst (mk 0), snd (mk 0)) \<notin> mk ` set [1..<m]" using False \<open>i = 0\<close> by simp
    then have "pieceAt (fst ?res) (fst (mk 0)) (snd (mk 0)) = pieceAt b1 (fst (mk 0)) (snd (mk 0))"
      using F by blast
    also have "\<dots> = sp" using cellb1 by simp
    finally show ?thesis unfolding nb dr len \<open>i = 0\<close>
      using written_mono[OF spw, of "draws st" "k1 + (m - 1)"] by simp
  qed
qed

lemma resolveRun_runsWritten:
  assumes l: "1 \<le> lvl" and fb: "fullBoard (newBoard st)"
    and on: "\<forall>i < m. fst (mk i) < BOARD_SIZE \<and> snd (mk i) < BOARD_SIZE" and m: "0 < m"
    and k: "k \<le> draws st" and w: "runsWritten rnd lvl k st"
  shows "runsWritten rnd lvl k (resolveRun rnd lvl mk m st)"
proof -
  let ?st' = "resolveRun rnd lvl mk m st"
  note rc = resolveRun_cells[OF l fb on m, where rnd = rnd]
  have new: "written rnd lvl k (draws ?st') (pieceAt (newBoard ?st') (fst (mk i)) (snd (mk i)))"
    if "i < m" for i
    using written_mono[OF rc(4)[OF that] k order_refl] .
  have old: "written rnd lvl k (draws ?st') (pieceAt (newBoard ?st') r c)"
    if "written rnd lvl k (draws st) (pieceAt (newBoard st) r c)" for r c
  proof (cases "(r, c) \<in> mk ` {0..<m}")
    case True
    then obtain i where i: "i < m" "(r, c) = mk i" by auto
    from new[OF i(1)] i(2) show ?thesis by (metis fst_conv snd_conv)
  next
    case False
    from rc(3)[OF False] written_mono[OF that order_refl rc(2)] show ?thesis by simp
  qed
  have e: "explosions ?st' =
     explosions st @ [map (\<lambda>i. \<lparr>row = int (fst (mk i)), col = int (snd (mk i))\<rparr>) [0..<m]]"
    by (rule resolveRun_score(2))
  show ?thesis
    unfolding runsWritten_def e list_all_append
  proof (intro conjI)
    show "list_all (list_all (\<lambda>p. written rnd lvl k (draws ?st')
            (pieceAt (newBoard ?st') (nat (row p)) (nat (col p))))) (explosions st)"
      using w old unfolding runsWritten_def list_all_iff by blast
    show "list_all (list_all (\<lambda>p. written rnd lvl k (draws ?st')
            (pieceAt (newBoard ?st') (nat (row p)) (nat (col p)))))
            [map (\<lambda>i. \<lparr>row = int (fst (mk i)), col = int (snd (mk i))\<rparr>) [0..<m]]"
      using new by (simp add: list_all_iff)
  qed
qed

lemma checkMatchesSwap_written:
  assumes l: "1 \<le> lvl" and fb: "fullBoard b"
  shows "runsWritten rnd lvl k (checkMatchesSwap rnd lvl k sc b)"
proof -
  let ?P = "\<lambda>st. fullBoard (newBoard st) \<and> k \<le> draws st \<and> runsWritten rnd lvl k st"
  have step: "?P (resolveRun rnd lvl mk m st)"
    if "?P st" "\<forall>i < m. fst (mk i) < BOARD_SIZE \<and> snd (mk i) < BOARD_SIZE" "0 < m" for st mk m
  proof -
    note rc = resolveRun_cells[OF l _ that(2,3), where rnd = rnd and st = st]
    show ?thesis
      using rc(1) rc(2) resolveRun_runsWritten[OF l _ that(2,3), of st k rnd] that(1) by simp
  qed
  have "?P (checkMatchesSwap rnd lvl k sc b)"
  proof (rule checkMatchesSwap_pres[where P = ?P])
    show "?P \<lparr>newBoard = b, matchFound = False, matchLength = 0, SwapState.score = sc,
                explosions = [], draws = k\<rparr>"
      using fb by (simp add: runsWritten_def)
  next
    fix st r c m
    assume "?P st" "r < BOARD_SIZE" "3 \<le> m" "c + m \<le> BOARD_SIZE"
    then show "?P (resolveRun rnd lvl (\<lambda>i. (r, c + i)) m st)"
      by (intro step) auto
  next
    fix st r c m
    assume "?P st" "c < BOARD_SIZE" "3 \<le> m" "r + m \<le> BOARD_SIZE"
    then show "?P (resolveRun rnd lvl (\<lambda>i. (r + i, c)) m st)"
      by (intro step) auto
  qed
  then show ?thesis by simp
qed

text \<open>
  C10. On the swap board every cell holds a piece of the palette or a special piece at all
  times: \<open>initializeBoard\<close> fills all 8 x 8 cells; after a \<open>checkMatches\<close> pass the
  board is full again, and every position of every run the pass resolved holds the bomb,
  the rainbow or a piece drawn during the pass (\<open>runsWritten\<close>; no write falls outside
  the board); a swap exchanges two pieces. The difficulty level is at least 1.
\<close>

theorem swap_board_always_full:
  "1 \<le> lvl \<Longrightarrow>
     fullBoard (initializeBoard rnd lvl) \<and>
     (fullBoard b \<longrightarrow> fullBoard (newBoard (checkMatchesSwap rnd lvl k sc b))) \<and>
     (fullBoard b \<longrightarrow> runsWritten rnd lvl k (checkMatchesSwap rnd lvl k sc b)) \<and>
     (fullBoard b \<and> onBoard p1 \<and> onBoard p2 \<longrightarrow> fullBoard (fst (attemptSwap b p1 p2)))"
  by (simp add: initializeBoard_full checkMatchesSwap_full checkMatchesSwap_written attemptSwap_full)

theorem swap_board_always_full_witness:
  "fullBoard (initializeBoard (\<lambda>k. k) 1) \<and>
   fullBoard (newBoard (checkMatchesSwap (\<lambda>k. k) 1 0 0 scenarioBoard)) \<and>
   runsWritten (\<lambda>k. k) 1 0 (checkMatchesSwap (\<lambda>k. k) 1 0 0 scenarioBoard) \<and>
   explosions (checkMatchesSwap (\<lambda>k. k) 1 0 0 scenarioBoard)
     = [[\<lparr>row = 2, col = 0\<rparr>, \<lparr>row = 2, col = 1\<rparr>, \<lparr>row = 2, col = 2\<rparr>, \<lparr>row = 2, col = 3\<rparr>, \<lparr>row = 2, col = 4\<rparr>]] \<and>
   map (pieceAt (newBoard (checkMatchesSwap (\<lambda>k. k) 1 0 0 scenarioBoard)) 2) [0..<5]
     = [\<lparr>GamePiece.type = ''bomb'', isSpecial = Some True\<rparr>,
        \<lparr>GamePiece.type = ''dog'', isSpecial = None\<rparr>,
        \<lparr>GamePiece.type = ''bone'', isSpecial = None\<rparr>,
        \<lparr>GamePiece.type = ''paws'', isSpecial = None\<rparr>,
        \<lparr>GamePiece.type = ''ball'', isSpecial = None\<rparr>] \<and>
   draws (checkMatchesSwap (\<lambda>k. k) 1 0 0 scenarioBoard) = 4 \<and>
   fullBoard (fst (attemptSwap scenarioBoard \<lparr>row = 2, col = 0\<rparr> \<lparr>row = 3, col = 0\<rparr>))"
proof -
  have e: "explosions (checkMatchesSwap (\<lambda>k. k) 1 0 0 scenarioBoard)
     = [[\<lparr>row = 2, col = 0\<rparr>, \<lparr>row = 2, col = 1\<rparr>, \<lparr>row = 2, col = 2\<rparr>, \<lparr>row = 2, col = 3\<rparr>, \<lparr>row = 2, col = 4\<rparr>]]"
    by code_simp
  have p: "map (pieceAt (newBoard (checkMatchesSwap (\<lambda>k. k) 1 0 0 scenarioBoard)) 2) [0..<5]
     = [\<lparr>GamePiece.type = ''bomb'', isSpecial = Some True\<rparr>,
        \<lparr>GamePiece.type = ''dog'', isSpecial = None\<rparr>,
        \<lparr>GamePiece.type = ''bone'', isSpecial = None\<rparr>,
        \<lparr>GamePiece.type = ''paws'', isSpecial = None\<rparr>,
        \<lparr>GamePiece.type = ''ball'', isSpecial = None\<rparr>]"
    by code_simp
  have d: "draws (checkMatchesSwap (\<lambda>k. k) 1 0 0 scenarioBoard) = 4"
    by code_simp
  from swap_board_always_full [where lvl = 1 and rnd = "\<lambda>k. k" and b = scenarioBoard and k = 0
      and sc = 0 and ?p1.0 = "\<lparr>row = 2, col = 0\<rparr>" and ?p2.0 = "\<lparr>row = 3, col = 0\<rparr>"]
    fullBoard_scenario e p d
  show ?thesis by (simp add: onBoard_def BOARD_SIZE_def)
qed

section \<open>The swap board: a cascade that does not end\<close>

text \<open>With every draw giving the poodle, the pass on \<open>stuckBoard\<close> restores the run it resolved.\<close>

lemma stuck_step:
  "newBoard (checkMatchesSwap drawsPoodle 1 k sc stuckBoard) = stuckBoard \<and>
   matchFound (checkMatchesSwap drawsPoodle 1 k sc stuckBoard)"
  by code_simp

lemma stuck_forever: "cascadeSwap fuel drawsPoodle 1 k sc stuckBoard n = None"
proof (induction fuel arbitrary: k sc n)
  case 0
  show ?case by simp
next
  case (Suc fuel)
  show ?case using stuck_step[of k sc] Suc.IH by (simp add: Let_def)
qed

section \<open>The swap board: a pass over a board with a single run\<close>


























section \<open>The pair-matching game: which tiles are free\<close>

text \<open>
  C9 (as amended). \<open>isTileFree\<close> is true if and only if (a) no visible tile lies exactly
  one layer above the tile with horizontal offset under \<open>TILE_WIDTH\<close> and vertical offset
  under \<open>TILE_HEIGHT\<close>, and (b) on the left or on the right there is no other visible tile
  of the same layer whose vertical offset is under half of \<open>TILE_HEIGHT\<close> and whose
  horizontal distance is under \<open>TILE_WIDTH + 5\<close>.
\<close>

theorem isTileFree_iff:
  "isTileFree tiles tile \<longleftrightarrow>
     \<not> (\<exists>t \<in> set tiles. isVisible t \<and> Tile.z t = Tile.z tile + 1 \<and>
            \<bar>Tile.x t - Tile.x tile\<bar> < TILE_WIDTH \<and> \<bar>Tile.y t - Tile.y tile\<bar> < TILE_HEIGHT) \<and>
     (\<not> (\<exists>t \<in> set tiles. isVisible t \<and> Tile.z t = Tile.z tile \<and> Tile.id t \<noteq> Tile.id tile \<and>
            \<bar>Tile.y t - Tile.y tile\<bar> < TILE_HEIGHT div 2 \<and>
            Tile.x t < Tile.x tile \<and> Tile.x tile - Tile.x t < TILE_WIDTH + 5) \<or>
      \<not> (\<exists>t \<in> set tiles. isVisible t \<and> Tile.z t = Tile.z tile \<and> Tile.id t \<noteq> Tile.id tile \<and>
            \<bar>Tile.y t - Tile.y tile\<bar> < TILE_HEIGHT div 2 \<and>
            Tile.x t > Tile.x tile \<and> Tile.x t - Tile.x tile < TILE_WIDTH + 5))"
proof -
  have c: "find (isCovering tile) tiles = None \<longleftrightarrow> \<not> (\<exists>t \<in> set tiles. isCovering tile t)"
    and l: "find (isLeftNeighbor tile) tiles = None \<longleftrightarrow> \<not> (\<exists>t \<in> set tiles. isLeftNeighbor tile t)"
    and r: "find (isRightNeighbor tile) tiles = None \<longleftrightarrow> \<not> (\<exists>t \<in> set tiles. isRightNeighbor tile t)"
    by (auto simp: find_None_iff)
  show ?thesis
    unfolding isTileFree_def Let_def c l r
    unfolding isCovering_def isLeftNeighbor_def isRightNeighbor_def
    by auto
qed

theorem isTileFree_iff_witness:
  "\<not> isTileFree rowOfThree (mkTile ''l0-0-1'' 92 50 0) \<and> isTileFree rowOfThree (mkTile ''l0-0-0'' 50 50 0)"
  unfolding isTileFree_iff
  by (simp add: rowOfThree_def mkTile_def TILE_WIDTH_def TILE_HEIGHT_def)

text \<open>
  The rule as the specification words it differs from \<open>isTileFree\<close> on both boards: the
  middle tile of a row laid out 42 pixels apart is blocked although no neighbour is within
  one tile width (40), and a tile under a tile two layers up is free.
\<close>

theorem isTileFree_spec_counterexample:
  "isTileFree rowOfThree (mkTile ''l0-0-1'' 92 50 0) \<noteq> isSelectableSpec rowOfThree (mkTile ''l0-0-1'' 92 50 0)
   \<and> isTileFree twoLayersUp (mkTile ''a'' 50 50 0) \<noteq> isSelectableSpec twoLayersUp (mkTile ''a'' 50 50 0)"
  by (simp add: isTileFree_def isSelectableSpec_def isCovering_def isLeftNeighbor_def
      isRightNeighbor_def rowOfThree_def twoLayersUp_def mkTile_def TILE_WIDTH_def TILE_HEIGHT_def)

section \<open>The falling-pill game: what the scan of a line collects\<close>

lemma scanInvI:
  assumes "count \<le> i" "0 < i \<Longrightarrow> 1 \<le> count \<and> cur = f (i - 1)" "i = 0 \<Longrightarrow> cur = EMPTY"
    "\<And>j. i - count \<le> j \<Longrightarrow> j < i \<Longrightarrow> f j = cur" "cur = EMPTY \<Longrightarrow> count \<le> 1"
    "cur \<noteq> EMPTY \<Longrightarrow> count < i \<Longrightarrow> f (i - count - 1) \<noteq> cur"
  shows "scanInv f i count cur"
  unfolding scanInv_def using assms by blast

lemma scanInvD:
  assumes "scanInv f i count cur"
  shows "count \<le> i" "0 < i \<Longrightarrow> 1 \<le> count \<and> cur = f (i - 1)" "i = 0 \<Longrightarrow> cur = EMPTY"
    "\<And>j. i - count \<le> j \<Longrightarrow> j < i \<Longrightarrow> f j = cur" "cur = EMPTY \<Longrightarrow> count \<le> 1"
    "cur \<noteq> EMPTY \<Longrightarrow> count < i \<Longrightarrow> f (i - count - 1) \<noteq> cur"
  using assms unfolding scanInv_def by blast+

lemma runCells_mono: "m \<le> m' \<Longrightarrow> runCells f m \<subseteq> runCells f m'"
  by (fastforce simp: runCells_def)

lemma run_in_runCells:
  assumes inv: "scanInv f i count cur" and c3: "3 \<le> count" and j: "i - count \<le> j" "j < i"
  shows "j \<in> runCells f i"
proof -
  note d = scanInvD[OF inv]
  have ci: "count \<le> i" using d(1) .
  have ne: "cur \<noteq> EMPTY"
  proof
    assume "cur = EMPTY"
    then have "count \<le> 1" using d(5) by simp
    then show False using c3 by simp
  qed
  have eq: "\<And>k. i - count \<le> k \<Longrightarrow> k < i \<Longrightarrow> f k = cur" using d(4) .
  define a where "a = min j (i - 3)"
  have a: "a \<le> j" "j < a + 3" "a + 3 \<le> i" "i - count \<le> a"
    using j c3 ci by (auto simp: a_def)
  have "win f a" unfolding win_def using eq[of a] eq[of "a + 1"] eq[of "a + 2"] a ne by auto
  then show ?thesis unfolding runCells_def using a by blast
qed

lemma runCells_split:
  assumes inv: "scanInv f i count cur" and j: "j \<in> runCells f i"
  shows "j \<in> runCells f (i - count) \<or> (3 \<le> count \<and> i - count \<le> j \<and> j < i)"
proof -
  from j obtain a where a: "a \<le> j" "j < a + 3" "a + 3 \<le> i" "win f a"
    by (auto simp: runCells_def)
  note d = scanInvD[OF inv]
  have ci: "count \<le> i" using d(1) .
  have eq: "\<And>k. i - count \<le> k \<Longrightarrow> k < i \<Longrightarrow> f k = cur" using d(4) .
  have fa: "f a \<noteq> EMPTY" "f (a + 1) = f a" "f (a + 2) = f a" using a(4) by (auto simp: win_def)
  show ?thesis
  proof (cases "a + 3 \<le> i - count")
    case True
    then have "j \<in> runCells f (i - count)" unfolding runCells_def using a by blast
    then show ?thesis ..
  next
    case False
    then have in2: "i - count \<le> a + 2" "a + 2 < i" using a by auto
    have cur: "cur = f a" using eq[OF in2] fa by simp
    have ne: "cur \<noteq> EMPTY" using cur fa by simp
    have ge: "i - count \<le> a"
    proof (rule ccontr)
      assume "\<not> i - count \<le> a"
      then have lt: "a < i - count" by simp
      then have ci': "count < i" by simp
      have left: "f (i - count - 1) \<noteq> cur" using d(6)[OF ne ci'] .
      have "i - count - 1 = a \<or> i - count - 1 = a + 1 \<or> i - count - 1 = a + 2"
        using lt in2 by arith
      then have "f (i - count - 1) = f a" using fa by auto
      then show False using left cur by simp
    qed
    have "3 \<le> count \<and> i - count \<le> j \<and> j < i" using ge a ci by auto
    then show ?thesis ..
  qed
qed

lemma runCells_push:
  assumes "scanInv f i count cur"
  shows "runCells f i = runCells f (i - count) \<union> (if 3 \<le> count then {i - count..<i} else {})"
proof
  show "runCells f i \<subseteq> runCells f (i - count) \<union> (if 3 \<le> count then {i - count..<i} else {})"
  proof
    fix j assume "j \<in> runCells f i"
    from runCells_split[OF assms this]
    show "j \<in> runCells f (i - count) \<union> (if 3 \<le> count then {i - count..<i} else {})"
      by auto
  qed
  show "runCells f (i - count) \<union> (if 3 \<le> count then {i - count..<i} else {}) \<subseteq> runCells f i"
    using runCells_mono[of "i - count" i f] run_in_runCells[OF assms] by auto
qed

lemma set_pushRun:
  assumes "count \<le> i"
  shows "set (pushRun mk (int i) count tc) = set tc \<union> (\<lambda>j. mk (int j)) ` {i - count..<i}"
proof -
  have "(\<lambda>k. mk (int i - int k)) ` {1..<count + 1} = (\<lambda>j. mk (int j)) ` {i - count..<i}"
  proof (intro set_eqI iffI)
    fix p assume "p \<in> (\<lambda>k. mk (int i - int k)) ` {1..<count + 1}"
    then obtain k where k: "1 \<le> k" "k \<le> count" "p = mk (int i - int k)" by auto
    then have "p = mk (int (i - k))" "i - count \<le> i - k" "i - k < i" using assms by auto
    then show "p \<in> (\<lambda>j. mk (int j)) ` {i - count..<i}" by auto
  next
    fix p assume "p \<in> (\<lambda>j. mk (int j)) ` {i - count..<i}"
    then obtain j where j: "i - count \<le> j" "j < i" "p = mk (int j)" by auto
    then have "p = mk (int i - int (i - j))" "1 \<le> i - j" "i - j < count + 1" using assms by auto
    then show "p \<in> (\<lambda>k. mk (int i - int k)) ` {1..<count + 1}" by (metis atLeastLessThan_iff imageI)
  qed
  then show ?thesis by (simp only: pushRun_def set_append set_map set_upt)
qed

lemma scanInv_extend:
  assumes inv: "scanInv f i count cur" and same: "f i \<noteq> EMPTY" "f i = cur"
  shows "scanInv f (Suc i) (count + 1) cur"
proof (rule scanInvI)
  note d = scanInvD[OF inv]
  show "count + 1 \<le> Suc i" using d(1) by simp
  show "1 \<le> count + 1 \<and> cur = f (Suc i - 1)" using same by simp
  show "cur = EMPTY" if "Suc i = 0" using that by simp
  show "f j = cur" if "Suc i - (count + 1) \<le> j" "j < Suc i" for j
  proof (cases "j = i")
    case True
    then show ?thesis using same by simp
  next
    case False
    then show ?thesis using that d(4)[of j] by simp
  qed
  show "count + 1 \<le> 1" if "cur = EMPTY" using that same by simp
  show "f (Suc i - (count + 1) - 1) \<noteq> cur" if "cur \<noteq> EMPTY" "count + 1 < Suc i"
    using that d(6) by simp
qed

lemma scanInv_restart:
  assumes inv: "scanInv f i count cur" and diff: "\<not> (f i \<noteq> EMPTY \<and> f i = cur)"
  shows "scanInv f (Suc i) 1 (f i)"
proof (rule scanInvI)
  note d = scanInvD[OF inv]
  show "1 \<le> Suc i" by simp
  show "1 \<le> (1::nat) \<and> f i = f (Suc i - 1)" by simp
  show "f i = EMPTY" if "Suc i = 0" using that by simp
  show "f j = f i" if "Suc i - 1 \<le> j" "j < Suc i" for j
  proof -
    have "j = i" using that by simp
    then show ?thesis by simp
  qed
  show "(1::nat) \<le> 1" by simp
  show "f (Suc i - 1 - 1) \<noteq> f i" if ne: "f i \<noteq> EMPTY" and lt: "1 < Suc i"
  proof -
    have "0 < i" using lt by simp
    then have "cur = f (i - 1)" using d(2) by simp
    moreover have "f i \<noteq> cur" using diff ne by simp
    ultimately show ?thesis by simp
  qed
qed

lemma scanStep_inv:
  assumes inv: "scanInv f i count cur"
    and tc: "set tc = set tc0 \<union> (\<lambda>j. mk (int j)) ` runCells f (i - count)"
    and st: "scanStep f mk (count, cur, tc) i = (count', cur', tc')"
  shows "scanInv f (Suc i) count' cur' \<and>
         set tc' = set tc0 \<union> (\<lambda>j. mk (int j)) ` runCells f (Suc i - count')"
proof (cases "f i \<noteq> EMPTY \<and> f i = cur")
  case True
  then have eqs: "count' = count + 1" "cur' = cur" "tc' = tc"
    using st by (auto simp: scanStep_def)
  have "Suc i - (count + 1) = i - count" by simp
  then show ?thesis
    unfolding eqs using scanInv_extend[OF inv conjunct1[OF True] conjunct2[OF True]] tc by simp
next
  case False
  then have eqs: "count' = 1" "cur' = f i"
      "tc' = (if count \<ge> 3 then pushRun mk (int i) count tc else tc)"
    using st by (auto simp: scanStep_def)
  have ci: "count \<le> i" using scanInvD(1)[OF inv] .
  have set': "set tc' = set tc0 \<union> (\<lambda>j. mk (int j)) ` runCells f i"
  proof (cases "3 \<le> count")
    case True
    have "set tc' = set tc \<union> (\<lambda>j. mk (int j)) ` {i - count..<i}"
      using True eqs(3) set_pushRun[OF ci, of mk tc] by simp
    also have "\<dots> = set tc0 \<union> (\<lambda>j. mk (int j)) ` (runCells f (i - count) \<union> {i - count..<i})"
      unfolding tc image_Un by (simp add: Un_assoc)
    also have "runCells f (i - count) \<union> {i - count..<i} = runCells f i"
      using runCells_push[OF inv] True by simp
    finally show ?thesis .
  next
    case False
    have "runCells f i = runCells f (i - count)" using runCells_push[OF inv] False by simp
    then show ?thesis using False eqs(3) tc by simp
  qed
  have "Suc i - 1 = i" by simp
  then show ?thesis
    unfolding eqs(1,2) using scanInv_restart[OF inv False] set' by simp
qed

lemma scan_fold_inv:
  "case foldl (scanStep f mk) (0, EMPTY, tc0) [0..<i] of
     (count, cur, tc) \<Rightarrow>
       scanInv f i count cur \<and> set tc = set tc0 \<union> (\<lambda>j. mk (int j)) ` runCells f (i - count)"
proof (induction i)
  case 0
  show ?case by (simp add: scanInv_def runCells_def)
next
  case (Suc i)
  obtain count cur tc where s: "foldl (scanStep f mk) (0, EMPTY, tc0) [0..<i] = (count, cur, tc)"
    using prod_cases3 by blast
  obtain count' cur' tc' where s': "scanStep f mk (count, cur, tc) i = (count', cur', tc')"
    using prod_cases3 by blast
  have inv: "scanInv f i count cur"
    and tc: "set tc = set tc0 \<union> (\<lambda>j. mk (int j)) ` runCells f (i - count)"
    using Suc s by simp_all
  have fold: "foldl (scanStep f mk) (0, EMPTY, tc0) [0..<Suc i] = (count', cur', tc')"
    using s s' by simp
  show ?case
    unfolding fold using scanStep_inv[OF inv tc s'] by simp
qed

lemma set_scanLine:
  "set (scanLine n f mk tc0) = set tc0 \<union> (\<lambda>j. mk (int j)) ` runCells f n"
proof -
  obtain count cur tc where s: "foldl (scanStep f mk) (0, EMPTY, tc0) [0..<n] = (count, cur, tc)"
    using prod_cases3 by blast
  have inv: "scanInv f n count cur"
    and tc: "set tc = set tc0 \<union> (\<lambda>j. mk (int j)) ` runCells f (n - count)"
    using scan_fold_inv[where f = f and mk = mk and ?tc0.0 = tc0 and i = n] unfolding s by simp_all
  have ci: "count \<le> n" using scanInvD(1)[OF inv] .
  have ne: "cur \<noteq> EMPTY" if "3 \<le> count" using scanInvD(5)[OF inv] that by auto
  have res: "scanLine n f mk tc0 = (if 3 \<le> count then pushRun mk (int n) count tc else tc)"
    unfolding scanLine_def s using ne by simp
  show ?thesis
  proof (cases "3 \<le> count")
    case True
    have "set (scanLine n f mk tc0) = set tc \<union> (\<lambda>j. mk (int j)) ` {n - count..<n}"
      using True res set_pushRun[OF ci, of mk tc] by simp
    also have "\<dots> = set tc0 \<union> (\<lambda>j. mk (int j)) ` (runCells f (n - count) \<union> {n - count..<n})"
      unfolding tc image_Un by (simp add: Un_assoc)
    also have "runCells f (n - count) \<union> {n - count..<n} = runCells f n"
      using runCells_push[OF inv] True by simp
    finally show ?thesis .
  next
    case False
    have "runCells f n = runCells f (n - count)" using runCells_push[OF inv] False by simp
    then show ?thesis using False res tc by simp
  qed
qed

lemma set_foldl_scanLine:
  "set (foldl (\<lambda>tc a. scanLine n (f a) (mk a) tc) tc0 as) =
     set tc0 \<union> (\<Union>a \<in> set as. (\<lambda>j. mk a (int j)) ` runCells (f a) n)"
  by (induction as arbitrary: tc0) (auto simp: set_scanLine)

lemma set_toClear:
  "set (toClear R C g) =
     (\<Union>r \<in> {0..<R}. (\<lambda>j. \<lparr>row = int r, col = int j\<rparr>) ` runCells (\<lambda>c. type (cell g r c)) C) \<union>
     (\<Union>c \<in> {0..<C}. (\<lambda>j. \<lparr>row = int j, col = int c\<rparr>) ` runCells (\<lambda>r. type (cell g r c)) R)"
  unfolding toClear_def Let_def
  by (simp add: set_foldl_scanLine)

section \<open>The falling-pill game: one pass of gravity\<close>

lemma wf_gridD:
  assumes "wf_grid R C g" "r < R"
  shows "length g = R" "length (g ! r) = C"
  using assms by (auto simp: wf_grid_def list_all_length)

lemma wf_setCell:
  assumes "wf_grid R C g"
  shows "wf_grid R C (setCell g r c b)"
proof -
  have len: "length g = R" and rows: "\<And>n. n < length g \<Longrightarrow> length (g ! n) = C"
    using assms by (auto simp: wf_grid_def list_all_length)
  have "length (g[r := (g ! r)[c := b]] ! n) = C" if "n < length g" for n
  proof (cases "n = r")
    case True
    then show ?thesis using that rows[of r] by simp
  next
    case False
    then show ?thesis using that rows[of n] by simp
  qed
  then show ?thesis using len by (simp add: wf_grid_def setCell_def list_all_length)
qed

lemma cell_setCell:
  assumes "wf_grid R C g" "r < R" "c < C"
  shows "cell (setCell g r c b) r' c' = (if r' = r \<and> c' = c then b else cell g r' c')"
proof -
  have lg: "r < length g" and lr: "c < length (g ! r)"
    using wf_gridD[OF assms(1,2)] assms(2,3) by simp_all
  show ?thesis
  proof (cases "r' = r")
    case True
    then show ?thesis using lg lr by (simp add: cell_def setCell_def nth_list_update)
  next
    case False
    then show ?thesis by (simp add: cell_def setCell_def)
  qed
qed

lemma gravityCell_eq:
  "gravityCell (g, m) (r, c) =
     (if falls g r c then (setCell (setCell g (r + 1) c (cell g r c)) r c emptyBlock, True) else (g, m))"
  by (simp add: gravityCell_def falls_def)

lemma gravity_moved_stays: "snd (foldl gravityCell (g, True) ps) = True"
proof (induction ps arbitrary: g)
  case Nil
  show ?case by simp
next
  case (Cons p ps)
  obtain r c where p: "p = (r, c)" by (cases p)
  show ?case using Cons.IH by (simp add: p gravityCell_eq)
qed

lemma gravity_unmoved:
  assumes "foldl gravityCell (g, m) ps = (g', False)"
  shows "g' = g \<and> (\<forall>(r, c) \<in> set ps. \<not> falls g r c)"
  using assms
proof (induction ps arbitrary: g m)
  case Nil
  then show ?case by simp
next
  case (Cons p ps)
  obtain r c where p: "p = (r, c)" by (cases p)
  show ?case
  proof (cases "falls g r c")
    case True
    then have "snd (foldl gravityCell (g, m) (p # ps)) = True"
      by (simp add: p gravityCell_eq gravity_moved_stays)
    then show ?thesis using Cons.prems by simp
  next
    case False
    then have "foldl gravityCell (g, m) ps = (g', False)"
      using Cons.prems by (simp add: p gravityCell_eq)
    from Cons.IH[OF this] show ?thesis using False by (simp add: p)
  qed
qed

lemma set_gravityOrder: "set (gravityOrder R C) = {(r, c). r + 1 < R \<and> c < C}"
  by (auto simp: gravityOrder_def)

lemma gravityPass_settled:
  assumes "snd (gravityPass R C g) = False" "r + 1 < R" "c < C"
  shows "\<not> falls g r c" "fst (gravityPass R C g) = g"
proof -
  obtain g' where "foldl gravityCell (g, False) (gravityOrder R C) = (g', False)"
    using assms(1) unfolding gravityPass_def by (metis prod.collapse)
  from gravity_unmoved[OF this] have "fst (gravityPass R C g) = g"
    and "\<forall>(r, c) \<in> set (gravityOrder R C). \<not> falls g r c"
    by (auto simp: gravityPass_def \<open>foldl gravityCell (g, False) (gravityOrder R C) = (g', False)\<close>)
  then show "\<not> falls g r c" "fst (gravityPass R C g) = g"
    using assms(2,3) by (auto simp: set_gravityOrder)
qed

lemma cell_fall:
  assumes "wf_grid R C g" "r + 1 < R" "c < C"
  shows "cell (setCell (setCell g (r + 1) c (cell g r c)) r c emptyBlock) r' c' =
     (if r' = r \<and> c' = c then emptyBlock
      else if r' = r + 1 \<and> c' = c then cell g r c else cell g r' c')"
proof -
  have w: "wf_grid R C (setCell g (r + 1) c (cell g r c))" using assms(1) by (rule wf_setCell)
  have r: "r < R" using assms(2) by simp
  have a: "cell (setCell (setCell g (r + 1) c (cell g r c)) r c emptyBlock) r' c' =
      (if r' = r \<and> c' = c then emptyBlock else cell (setCell g (r + 1) c (cell g r c)) r' c')"
    by (rule cell_setCell[OF w r assms(3)])
  have b: "cell (setCell g (r + 1) c (cell g r c)) r' c' =
      (if r' = r + 1 \<and> c' = c then cell g r c else cell g r' c')"
    by (rule cell_setCell[OF assms(1,2,3)])
  show ?thesis unfolding a b by simp
qed

lemma keepsViruses_refl: "keepsViruses g g"
  by (simp add: keepsViruses_def)

lemma keepsViruses_fall:
  assumes "wf_grid R C g'" "r + 1 < R" "c < C" "falls g' r c" "keepsViruses g g'"
  shows "keepsViruses g (setCell (setCell g' (r + 1) c (cell g' r c)) r c emptyBlock)"
  using assms(4,5) unfolding keepsViruses_def falls_def cell_fall[OF assms(1,2,3)]
  by (auto simp: emptyBlock_def)

lemma gravity_fold_keeps:
  assumes "wf_grid R C g'" "\<forall>(r, c) \<in> set ps. r + 1 < R \<and> c < C" "keepsViruses g g'"
  shows "wf_grid R C (fst (foldl gravityCell (g', m) ps)) \<and>
         keepsViruses g (fst (foldl gravityCell (g', m) ps))"
  using assms
proof (induction ps arbitrary: g' m)
  case Nil
  then show ?case by simp
next
  case (Cons p ps)
  obtain r c where p: "p = (r, c)" by (cases p)
  have rc: "r + 1 < R" "c < C" using Cons.prems(2) by (auto simp: p)
  have rest: "\<forall>(r, c) \<in> set ps. r + 1 < R \<and> c < C" using Cons.prems(2) by simp
  show ?case
  proof (cases "falls g' r c")
    case True
    let ?g = "setCell (setCell g' (r + 1) c (cell g' r c)) r c emptyBlock"
    have "wf_grid R C ?g" using Cons.prems(1) by (intro wf_setCell)
    moreover have "keepsViruses g ?g"
      using keepsViruses_fall[OF Cons.prems(1) rc True Cons.prems(3)] .
    ultimately show ?thesis using Cons.IH[OF _ rest, of ?g True] True
      by (simp add: p gravityCell_eq)
  next
    case False
    then show ?thesis using Cons.IH[OF Cons.prems(1) rest Cons.prems(3), of m]
      by (simp add: p gravityCell_eq)
  qed
qed

lemma gravityPass_keeps:
  assumes "wf_grid R C g'" "keepsViruses g g'"
  shows "wf_grid R C (fst (gravityPass R C g'))" "keepsViruses g (fst (gravityPass R C g'))"
  using gravity_fold_keeps[OF assms(1) _ assms(2), of "gravityOrder R C" False]
  by (auto simp: gravityPass_def set_gravityOrder)

lemma gravity_passes_keep:
  assumes "wf_grid R C g"
  shows "wf_grid R C (((\<lambda>h. fst (gravityPass R C h)) ^^ n) g) \<and>
         keepsViruses g (((\<lambda>h. fst (gravityPass R C h)) ^^ n) g)"
proof (induction n)
  case 0
  show ?case using assms by (simp add: keepsViruses_refl)
next
  case (Suc n)
  then show ?case
    using gravityPass_keeps[of R C "((\<lambda>h. fst (gravityPass R C h)) ^^ n) g" g] by simp
qed

section \<open>The falling-pill game: occupied cells and their height\<close>

lemma occ_subset: "occ R C g \<subseteq> {0..<R} \<times> {0..<C}"
  by (auto simp: occ_def)

lemma finite_occ: "finite (occ R C g)"
  using occ_subset by (rule finite_subset) simp

lemma card_occ_le: "card (occ R C g) \<le> R * C"
  using card_mono[OF _ occ_subset, of R C g] by simp

lemma pot_le: "pot R C g \<le> R * (R * C)"
proof -
  have "pot R C g \<le> (\<Sum>rc \<in> occ R C g. R)"
    unfolding pot_def by (rule sum_mono) (simp add: case_prod_unfold)
  also have "\<dots> = card (occ R C g) * R" by simp
  also have "\<dots> \<le> (R * C) * R" using card_occ_le by simp
  finally show ?thesis by (simp add: mult.commute)
qed

lemma pot_diff:
  assumes "S \<subseteq> occ R C g"
  shows "pot R C g = (\<Sum>(r, c) \<in> occ R C g - S. R - r) + (\<Sum>(r, c) \<in> S. R - r)"
  unfolding pot_def using sum.subset_diff[OF assms finite_occ] by simp

lemma occ_weight: "(r, c) \<in> occ R C g \<Longrightarrow> 1 \<le> R - r"
  by (auto simp: occ_def)

lemma occ_fall:
  assumes w: "wf_grid R C g" and rc: "r + 1 < R" "c < C" and f: "falls g r c"
  shows "occ R C (setCell (setCell g (r + 1) c (cell g r c)) r c emptyBlock)
           = insert (r + 1, c) (occ R C g - {(r, c)})"
    and "(r, c) \<in> occ R C g" and "(r + 1, c) \<notin> occ R C g"
  using f rc unfolding occ_def cell_fall[OF w rc] falls_def
  by (auto simp: emptyBlock_def)

lemma fall_measures:
  assumes w: "wf_grid R C g" and rc: "r + 1 < R" "c < C" and f: "falls g r c"
  shows "card (occ R C (setCell (setCell g (r + 1) c (cell g r c)) r c emptyBlock)) = card (occ R C g)"
    and "pot R C (setCell (setCell g (r + 1) c (cell g r c)) r c emptyBlock) + 1 = pot R C g"
proof -
  let ?g = "setCell (setCell g (r + 1) c (cell g r c)) r c emptyBlock"
  let ?D = "occ R C g - {(r, c)}"
  note o = occ_fall[OF w rc f]
  have fin: "finite ?D" using finite_occ by simp
  have nin: "(r + 1, c) \<notin> ?D" using o(3) by simp
  have og: "occ R C g = insert (r, c) ?D" using o(2) by auto
  have nin': "(r, c) \<notin> ?D" by simp
  show "card (occ R C ?g) = card (occ R C g)"
    unfolding o(1) using card_insert_disjoint[OF fin nin] card_insert_disjoint[OF fin nin'] og
    by simp
  have p1: "pot R C ?g = (R - (r + 1)) + (\<Sum>(r, c) \<in> ?D. R - r)"
    unfolding pot_def o(1) using sum.insert[OF fin nin, of "\<lambda>(r, c). R - r"] by simp
  have "pot R C g = (\<Sum>(r, c) \<in> insert (r, c) ?D. R - r)"
    unfolding pot_def using og by simp
  also have "\<dots> = (R - r) + (\<Sum>(r, c) \<in> ?D. R - r)"
    using sum.insert[OF fin nin', of "\<lambda>(r, c). R - r"] by simp
  finally show "pot R C ?g + 1 = pot R C g" using p1 rc by simp
qed

lemma gravity_fold_measures:
  assumes "wf_grid R C g" "\<forall>(r, c) \<in> set ps. r + 1 < R \<and> c < C"
  shows "card (occ R C (fst (foldl gravityCell (g, m) ps))) = card (occ R C g) \<and>
         pot R C (fst (foldl gravityCell (g, m) ps)) \<le> pot R C g \<and>
         (snd (foldl gravityCell (g, m) ps) \<longrightarrow>
            m \<or> pot R C (fst (foldl gravityCell (g, m) ps)) < pot R C g)"
  using assms
proof (induction ps arbitrary: g m)
  case Nil
  then show ?case by simp
next
  case (Cons p ps)
  obtain r c where p: "p = (r, c)" by (cases p)
  have rc: "r + 1 < R" "c < C" using Cons.prems(2) by (auto simp: p)
  have rest: "\<forall>(r, c) \<in> set ps. r + 1 < R \<and> c < C" using Cons.prems(2) by simp
  show ?case
  proof (cases "falls g r c")
    case True
    let ?g = "setCell (setCell g (r + 1) c (cell g r c)) r c emptyBlock"
    have w: "wf_grid R C ?g" using Cons.prems(1) by (intro wf_setCell)
    note m = fall_measures[OF Cons.prems(1) rc True]
    have f: "foldl gravityCell (g, m) (p # ps) = foldl gravityCell (?g, True) ps"
      using True by (simp add: p gravityCell_eq)
    from Cons.IH[OF w rest, of True] m show ?thesis
      unfolding f by simp
  next
    case False
    then have f: "foldl gravityCell (g, m) (p # ps) = foldl gravityCell (g, m) ps"
      by (simp add: p gravityCell_eq)
    show ?thesis unfolding f using Cons.IH[OF Cons.prems(1) rest, of m] .
  qed
qed

lemma gravityPass_measures:
  assumes "wf_grid R C g"
  shows "wf_grid R C (fst (gravityPass R C g))"
    and "card (occ R C (fst (gravityPass R C g))) = card (occ R C g)"
    and "pot R C (fst (gravityPass R C g)) \<le> pot R C g"
    and "snd (gravityPass R C g) \<Longrightarrow> pot R C (fst (gravityPass R C g)) < pot R C g"
  using gravity_fold_measures[OF assms, of "gravityOrder R C" False]
    gravityPass_keeps(1)[OF assms keepsViruses_refl]
  by (auto simp: gravityPass_def set_gravityOrder)

section \<open>The falling-pill game: clearing\<close>

lemma runCells_cell:
  assumes "j \<in> runCells f n"
  shows "j < n" "f j \<noteq> EMPTY"
proof -
  from assms obtain a where a: "a \<le> j" "j < a + 3" "a + 3 \<le> n" "win f a"
    by (auto simp: runCells_def)
  show "j < n" using a by simp
  have "j = a \<or> j = a + 1 \<or> j = a + 2" using a by arith
  then show "f j \<noteq> EMPTY" using a(4) by (auto simp: win_def)
qed

lemma toClear_cells:
  assumes "p \<in> set (toClear R C g)"
  shows "\<exists>r c. p = posOf r c \<and> (r, c) \<in> occ R C g"
proof -
  from assms consider
      (h) r j where "r < R" "j \<in> runCells (\<lambda>c. type (cell g r c)) C" "p = posOf r j"
    | (v) c j where "c < C" "j \<in> runCells (\<lambda>r. type (cell g r c)) R" "p = posOf j c"
    unfolding set_toClear posOf_def by auto
  then show ?thesis
  proof cases
    case h
    then show ?thesis using runCells_cell[OF h(2)] by (auto simp: occ_def)
  next
    case v
    then show ?thesis using runCells_cell[OF v(2)] by (auto simp: occ_def)
  qed
qed

lemma posOf_inj: "posOf r c = posOf r' c' \<longleftrightarrow> r = r' \<and> c = c'"
  by (simp add: posOf_def)

lemma clearCells_cell:
  assumes "wf_grid R C g" "\<forall>p \<in> set ps. \<exists>r c. p = posOf r c \<and> r < R \<and> c < C"
  shows "wf_grid R C (clearCells g ps) \<and>
         (\<forall>r c. cell (clearCells g ps) r c = (if posOf r c \<in> set ps then emptyBlock else cell g r c))"
  using assms
proof (induction ps arbitrary: g)
  case Nil
  then show ?case by (simp add: clearCells_def)
next
  case (Cons p ps)
  from Cons.prems(2) obtain r0 c0 where p: "p = posOf r0 c0" "r0 < R" "c0 < C" by auto
  let ?g = "setCell g r0 c0 emptyBlock"
  have w: "wf_grid R C ?g" using Cons.prems(1) by (rule wf_setCell)
  have step: "clearCells g (p # ps) = clearCells ?g ps"
    by (simp add: clearCells_def p(1) posOf_def)
  have rest: "\<forall>p \<in> set ps. \<exists>r c. p = posOf r c \<and> r < R \<and> c < C" using Cons.prems(2) by simp
  from Cons.IH[OF w rest] show ?case
    unfolding step by (auto simp: cell_setCell[OF Cons.prems(1) p(2,3)] p(1) posOf_inj)
qed

lemma occ_clear:
  assumes w: "wf_grid R C g" and ps: "\<forall>p \<in> set ps. \<exists>r c. p = posOf r c \<and> (r, c) \<in> occ R C g"
  shows "wf_grid R C (clearCells g ps)"
    and "occ R C (clearCells g ps) = occ R C g - {(r, c). posOf r c \<in> set ps}"
proof -
  have ps': "\<forall>p \<in> set ps. \<exists>r c. p = posOf r c \<and> r < R \<and> c < C"
    using ps by (fastforce simp: occ_def)
  note c = clearCells_cell[OF w ps']
  show "wf_grid R C (clearCells g ps)" using c by simp
  show "occ R C (clearCells g ps) = occ R C g - {(r, c). posOf r c \<in> set ps}"
    unfolding occ_def using c by (auto simp: emptyBlock_def)
qed

lemma clear_measures:
  assumes w: "wf_grid R C g" and ps: "\<forall>p \<in> set ps. \<exists>r c. p = posOf r c \<and> (r, c) \<in> occ R C g"
    and ne: "ps \<noteq> []"
  shows "card (occ R C (clearCells g ps)) < card (occ R C g)"
    and "pot R C (clearCells g ps) < pot R C g"
proof -
  let ?S = "{(r, c). posOf r c \<in> set ps} \<inter> occ R C g"
  have o: "occ R C (clearCells g ps) = occ R C g - ?S"
    using occ_clear(2)[OF w ps] by auto
  from ne obtain p where "p \<in> set ps" by (cases ps) auto
  with ps obtain r c where rc: "p = posOf r c" "(r, c) \<in> occ R C g" by blast
  then have rcS: "(r, c) \<in> ?S" using \<open>p \<in> set ps\<close> by simp
  have sub: "?S \<subseteq> occ R C g" by simp
  have finS: "finite ?S" using finite_occ by simp
  have "occ R C g - ?S \<subset> occ R C g" using rcS by auto
  then show "card (occ R C (clearCells g ps)) < card (occ R C g)"
    unfolding o using finite_occ by (simp add: psubset_card_mono)
  have "1 \<le> R - r" using occ_weight[OF rc(2)] .
  also have "R - r \<le> (\<Sum>(r, c) \<in> ?S. R - r)"
    using member_le_sum[OF rcS, of "\<lambda>(r, c). R - r"] finS by simp
  finally have "1 \<le> (\<Sum>(r, c) \<in> ?S. R - r)" .
  then show "pot R C (clearCells g ps) < pot R C g"
    using pot_diff[OF sub] unfolding pot_def o by simp
qed

section \<open>The falling-pill game: removing duplicates\<close>

lemma findIndex_first:
  assumes "v \<in> set xs"
  shows "\<exists>i < length xs. findIndex (\<lambda>t. t = v) xs = int i \<and> xs ! i = v"
  using assms
proof (induction xs)
  case Nil
  then show ?case by simp
next
  case (Cons a xs)
  show ?case
  proof (cases "a = v")
    case True
    then show ?thesis by (intro exI[of _ 0]) simp
  next
    case False
    then have "v \<in> set xs" using Cons.prems by simp
    from Cons.IH[OF this] obtain i where i: "i < length xs" "findIndex (\<lambda>t. t = v) xs = int i" "xs ! i = v"
      by blast
    show ?thesis using False i by (intro exI[of _ "Suc i"]) (simp add: Let_def)
  qed
qed

lemma samePos: "(\<lambda>t. row t = row v \<and> col t = col v) = (\<lambda>t::Position. t = v)"
proof (rule ext)
  fix t :: Position
  show "(row t = row v \<and> col t = col v) = (t = v)"
    by (cases t, cases v) simp
qed

lemma set_uniqueClear: "set (uniqueClear tc) = set tc"
proof
  show "set (uniqueClear tc) \<subseteq> set tc"
    by (auto simp: uniqueClear_def in_set_enumerate_eq)
  show "set tc \<subseteq> set (uniqueClear tc)"
  proof
    fix v assume "v \<in> set tc"
    from findIndex_first[OF this] obtain i where
      i: "i < length tc" "findIndex (\<lambda>t. t = v) tc = int i" "tc ! i = v" by blast
    have "(i, v) \<in> set (enumerate 0 tc)" using i by (simp add: in_set_enumerate_eq)
    then have "(i, v) \<in> set (filter (\<lambda>(i, v). findIndex (\<lambda>t. row t = row v \<and> col t = col v) tc = int i)
                (enumerate 0 tc))"
      using i(2) by (simp add: samePos)
    then have "snd (i, v) \<in> snd ` set (filter (\<lambda>(i, v). findIndex (\<lambda>t. row t = row v \<and> col t = col v) tc = int i)
                (enumerate 0 tc))"
      by (rule imageI)
    then show "v \<in> set (uniqueClear tc)"
      unfolding uniqueClear_def by simp
  qed
qed



section \<open>The falling-pill game: matches and the end of the cascade\<close>


lemma threeInLine_runCells: "threeInLine n f \<longleftrightarrow> runCells f n \<noteq> {}"
proof
  assume "threeInLine n f"
  then obtain a where "a + 3 \<le> n" "win f a"
    unfolding threeInLine_def list_ex_iff win_def by blast
  then have "a \<in> runCells f n" unfolding runCells_def by auto
  then show "runCells f n \<noteq> {}" by auto
next
  assume "runCells f n \<noteq> {}"
  then obtain j where "j \<in> runCells f n" by auto
  then obtain a where a: "a + 3 \<le> n" "win f a" by (auto simp: runCells_def)
  then have "a \<in> set [0..<n]" by simp
  then show "threeInLine n f" unfolding threeInLine_def list_ex_iff using a unfolding win_def by blast
qed

lemma toClear_empty: "toClear R C g = [] \<longleftrightarrow> noThreeInLine R C g"
proof -
  have "toClear R C g = [] \<longleftrightarrow> set (toClear R C g) = {}" by simp
  also have "\<dots> \<longleftrightarrow> (\<forall>r \<in> {0..<R}. runCells (\<lambda>c. type (cell g r c)) C = {}) \<and>
                     (\<forall>c \<in> {0..<C}. runCells (\<lambda>r. type (cell g r c)) R = {})"
    unfolding set_toClear by auto
  finally show ?thesis by (simp add: noThreeInLine_def list_all_iff threeInLine_runCells)
qed






lemma cascade_terminates_aux:
  "(\<forall>g sc n. wf_grid R C g \<longrightarrow> 2 * pot R C g + 1 \<le> fuel \<longrightarrow>
      (\<exists>g' sc' n'. checkMatches fuel R C False g sc n = Some (g', sc', n') \<and>
          wf_grid R C g' \<and> toClear R C g' = [] \<and> n' \<le> n + card (occ R C g)))
   \<and> (\<forall>g sc n. wf_grid R C g \<longrightarrow> 2 * pot R C g + 2 \<le> fuel \<longrightarrow>
      (\<exists>g' sc' n'. applyGravity fuel R C False g sc n = Some (g', sc', n') \<and>
          wf_grid R C g' \<and> toClear R C g' = [] \<and> n' \<le> n + card (occ R C g)))"
proof (induction fuel)
  case 0
  show ?case by simp
next
  case (Suc fuel)
  note IHc = Suc.IH[THEN conjunct1, rule_format]
  note IHg = Suc.IH[THEN conjunct2, rule_format]
  have check: "\<exists>g' sc' n'. checkMatches (Suc fuel) R C False g sc n = Some (g', sc', n') \<and>
          wf_grid R C g' \<and> toClear R C g' = [] \<and> n' \<le> n + card (occ R C g)"
    if w: "wf_grid R C g" and fu: "2 * pot R C g + 1 \<le> Suc fuel" for g sc n
  proof (cases "toClear R C g = []")
    case True
    then show ?thesis using w by simp
  next
    case False
    let ?uc = "uniqueClear (toClear R C g)"
    let ?g = "clearCells g ?uc"
    have ne: "?uc \<noteq> []" using False set_uniqueClear[of "toClear R C g"] by (metis set_empty)
    have cells: "\<forall>p \<in> set ?uc. \<exists>r c. p = posOf r c \<and> (r, c) \<in> occ R C g"
      using toClear_cells by (simp add: set_uniqueClear)
    have w': "wf_grid R C ?g" using occ_clear(1)[OF w cells] .
    note m = clear_measures[OF w cells ne]
    have "2 * pot R C ?g + 2 \<le> fuel" using m(2) fu by simp
    from IHg[OF w' this, of "sc + length ?uc * 100" "n + 1"]
    obtain g' sc' n' where r: "applyGravity fuel R C False ?g (sc + length ?uc * 100) (n + 1) = Some (g', sc', n')"
      "wf_grid R C g'" "toClear R C g' = []" "n' \<le> n + 1 + card (occ R C ?g)"
      by blast
    have "n' \<le> n + card (occ R C g)" using r(4) m(1) by simp
    moreover have "checkMatches (Suc fuel) R C False g sc n = Some (g', sc', n')"
      using False r(1) by (simp add: Let_def)
    ultimately show ?thesis using r(2,3) by blast
  qed
  have grav: "\<exists>g' sc' n'. applyGravity (Suc fuel) R C False g sc n = Some (g', sc', n') \<and>
          wf_grid R C g' \<and> toClear R C g' = [] \<and> n' \<le> n + card (occ R C g)"
    if w: "wf_grid R C g" and fu: "2 * pot R C g + 2 \<le> Suc fuel" for g sc n
  proof -
    obtain g1 moved where gp: "gravityPass R C g = (g1, moved)" by (cases "gravityPass R C g")
    note m = gravityPass_measures[OF w, unfolded gp fst_conv snd_conv]
    show ?thesis
    proof (cases moved)
      case True
      have "2 * pot R C g1 + 2 \<le> fuel" using m(4)[OF True] fu by simp
      from IHg[OF m(1) this, of sc n]
      obtain g' sc' n' where r: "applyGravity fuel R C False g1 sc n = Some (g', sc', n')"
        "wf_grid R C g'" "toClear R C g' = []" "n' \<le> n + card (occ R C g1)"
        by blast
      have "applyGravity (Suc fuel) R C False g sc n = Some (g', sc', n')"
        using True r(1) gp by simp
      then show ?thesis using r(2,3,4) m(2) by simp
    next
      case False
      have "2 * pot R C g1 + 1 \<le> fuel" using m(3) fu by simp
      from IHc[OF m(1) this, of sc n]
      obtain g' sc' n' where r: "checkMatches fuel R C False g1 sc n = Some (g', sc', n')"
        "wf_grid R C g'" "toClear R C g' = []" "n' \<le> n + card (occ R C g1)"
        by blast
      have "applyGravity (Suc fuel) R C False g sc n = Some (g', sc', n')"
        using False r(1) gp by simp
      then show ?thesis using r(2,3,4) m(2) by simp
    qed
  qed
  show ?case using check grav by blast
qed

lemma cascade_terminates:
  assumes "wf_grid R C g" "2 * R * R * C + 1 \<le> fuel"
  shows "\<exists>g' sc' n. checkMatches fuel R C False g sc 0 = Some (g', sc', n) \<and>
           n \<le> R * C \<and> toClear R C g' = []"
proof -
  have "2 * pot R C g + 1 \<le> fuel"
    using pot_le[of R C g] assms(2) by (simp add: mult.assoc)
  from cascade_terminates_aux[THEN conjunct1, rule_format, OF assms(1) this, of sc 0]
  obtain g' sc' n where r: "checkMatches fuel R C False g sc 0 = Some (g', sc', n)"
    "toClear R C g' = []" "n \<le> 0 + card (occ R C g)" by blast
  have "n \<le> R * C" using r(3) card_occ_le[of R C g] by simp
  then show ?thesis using r(1,2) by blast
qed

section \<open>The falling-pill game: evaluation on the concrete grids\<close>

lemma wf_cascadeGrid: "wf_grid GRID_ROWS GRID_COLS cascadeGrid"
  by code_simp

lemma wf_floatGrid: "wf_grid GRID_ROWS GRID_COLS floatGrid"
  by code_simp

lemma wf_settledGrid: "wf_grid GRID_ROWS GRID_COLS settledGrid"
  by code_simp

lemma wf_small: "wf_grid 4 5 smallGrid" "wf_grid 4 5 smallStable"
  by code_simp+

lemma settledGrid_pass: "gravityPass GRID_ROWS GRID_COLS settledGrid = (settledGrid, False)"
  by code_simp

lemma small_eval:
  "matchedCells 4 5 smallGrid = [(3, 0), (3, 1), (3, 2)]"
  "noThreeInLine 4 5 smallStable" "\<not> noThreeInLine 4 5 smallGrid"
  by code_simp+

section \<open>The falling-pill game: the properties\<close>

text \<open>
  C4. For every grid (of the shape the game keeps), the list \<open>toClear\<close> that
  \<open>checkMatches\<close> computes is empty if and only if no row and no column contains three
  or more consecutive cells with equal non-EMPTY types.
\<close>

theorem toClear_empty_iff:
  "wf_grid R C g \<Longrightarrow> (toClear R C g = [] \<longleftrightarrow> noThreeInLine R C g)"
  by (rule toClear_empty)

theorem toClear_empty_iff_witness:
  "toClear 4 5 smallStable = [] \<and> toClear 4 5 smallGrid \<noteq> []"
  using toClear_empty_iff[OF wf_small(1)] toClear_empty_iff[OF wf_small(2)] small_eval(2,3)
  by simp

text \<open>
  C5. When a full \<open>applyGravity\<close> pass moves no cell (\<open>moved\<close> stays false), every
  occupied cell that is not a virus has a non-EMPTY cell directly below it, if there is a
  row below.
\<close>

theorem settled_nothing_floats:
  assumes "wf_grid R C g" and "snd (gravityPass R C g) = False"
    and "r + 1 < R" and "c < C"
    and "type (cell g r c) \<noteq> EMPTY" and "\<not> isVirus (cell g r c)"
  shows "type (cell g (r + 1) c) \<noteq> EMPTY"
  using gravityPass_settled(1)[OF assms(2,3,4)] assms(5,6) by (simp add: falls_def)

theorem settled_nothing_floats_witness:
  "type (cell settledGrid 18 5) \<noteq> EMPTY"
proof -
  have s: "snd (gravityPass GRID_ROWS GRID_COLS settledGrid) = False"
    by (simp add: settledGrid_pass)
  have r: "17 + 1 < GRID_ROWS" "5 < GRID_COLS" by (simp_all add: GRID_ROWS_def GRID_COLS_def)
  have c: "type (cell settledGrid 17 5) \<noteq> EMPTY" "\<not> isVirus (cell settledGrid 17 5)"
    by code_simp+
  from settled_nothing_floats[OF wf_settledGrid s r c] show ?thesis by simp
qed

text \<open>
  C6. After any number of \<open>applyGravity\<close> passes, every cell that held a virus (a block
  with the virus flag and a colour) holds the same block at the same position, and every
  cell whose content changed holds a non-virus block: only non-virus blocks move.
\<close>

theorem gravity_keeps_viruses:
  assumes "wf_grid R C g" and "r < R" and "c < C"
  shows "(isVirus (cell g r c) \<and> type (cell g r c) \<noteq> EMPTY \<longrightarrow>
            cell (((\<lambda>h. fst (gravityPass R C h)) ^^ n) g) r c = cell g r c) \<and>
         (cell (((\<lambda>h. fst (gravityPass R C h)) ^^ n) g) r c \<noteq> cell g r c \<longrightarrow>
            \<not> isVirus (cell (((\<lambda>h. fst (gravityPass R C h)) ^^ n) g) r c))"
  using gravity_passes_keep[OF assms(1), of n] unfolding keepsViruses_def by blast

theorem gravity_keeps_viruses_witness:
  "cell (((\<lambda>h. fst (gravityPass GRID_ROWS GRID_COLS h)) ^^ 2) floatGrid) 18 5 = \<lparr>type = BLUE, isVirus = True\<rparr>
   \<and> type (cell floatGrid 19 5) = EMPTY"
proof -
  have r: "18 < GRID_ROWS" "5 < GRID_COLS" by (simp_all add: GRID_ROWS_def GRID_COLS_def)
  have c: "cell floatGrid 18 5 = \<lparr>type = BLUE, isVirus = True\<rparr>" "type (cell floatGrid 19 5) = EMPTY"
    by code_simp+
  from gravity_keeps_viruses[OF wf_floatGrid r, of 2] c show ?thesis by simp
qed

text \<open>
  C2 (as amended). In the pill game the cascade started by \<open>checkMatches\<close> on any grid
  ends: with fuel for \<open>2 * R * R * C + 1\<close> scheduled calls it returns a grid without
  matches, after at most \<open>R * C\<close> clearing steps (the number of cells of the grid).
\<close>

theorem pill_cascade_terminates:
  assumes "wf_grid R C g" and "2 * R * R * C + 1 \<le> fuel"
  shows "\<exists>g' sc' n. checkMatches fuel R C False g sc 0 = Some (g', sc', n) \<and>
           n \<le> R * C \<and> toClear R C g' = []"
  using cascade_terminates[OF assms] .

theorem pill_cascade_terminates_witness:
  "checkMatches 8001 GRID_ROWS GRID_COLS False cascadeGrid 0 0 = Some (finalGrid, 600, 2)
   \<and> toClear GRID_ROWS GRID_COLS finalGrid = []"
proof -
  have f: "2 * GRID_ROWS * GRID_ROWS * GRID_COLS + 1 \<le> 8001"
    by (simp add: GRID_ROWS_def GRID_COLS_def)
  have e: "checkMatches 8001 GRID_ROWS GRID_COLS False cascadeGrid 0 0 = Some (finalGrid, 600, 2)"
    by code_simp
  from pill_cascade_terminates[OF wf_cascadeGrid f, of 0] e show ?thesis by simp
qed

text \<open>
  The swap board has no such bound: with every draw giving the poodle, each pass on
  \<open>stuckBoard\<close> finds the run again, and after 65 passes the cascade has not ended.
\<close>

theorem cascadeSwap_unbounded_counterexample:
  "cascadeSwap (BOARD_SIZE * BOARD_SIZE + 1) drawsPoodle 1 0 0 stuckBoard 0 = None"
  by (rule stuck_forever)




section \<open>The falling-pill game: a blocked spawn\<close>

text \<open>
  What \<open>spawnPill\<close> does when a spawn cell of the grid it reads is occupied: it sets the
  game-over flag and changes nothing else.
\<close>

lemma spawnPill_closure_blocked:
  "grid cl \<noteq> [] \<and> \<not> gameOver cl \<and> spawnBlocked (grid cl) \<Longrightarrow>
     spawnPill cl d1 d2 s = s\<lparr>gameOver := True\<rparr>"
  by (auto simp: spawnPill_def spawnBlocked_def Let_def)

lemma spawnPillNext_closure_blocked:
  "grid cl \<noteq> [] \<and> \<not> gameOver cl \<and> nextPillColors cl \<noteq> None \<and> spawnBlocked (grid cl) \<Longrightarrow>
     spawnPillNext cl d1 d2 s = s\<lparr>gameOver := True\<rparr>"
  by (auto simp: spawnPillNext_def spawnBlocked_def Let_def split: option.splits)

text \<open>
  C8. The grid that \<open>spawnPill\<close> reads is the grid of the closure that locked the pill,
  that is, the grid before the lock. On \<open>stackState\<close> the pill at the spawn position
  cannot move down; the tick locks it on the two spawn cells, no match follows, and
  \<open>spawnPill\<close> finds the spawn cells of the old grid empty: the spawn cells of the board
  are occupied (yellow), yet the game is not over and a new pill is created on them. The
  game ends only at the following tick, whose closure holds the grid with the locked
  pill. The copy with the next-pill preview behaves the same.
\<close>

theorem spawn_after_lock_at_spawn:
  "map_option (\<lambda>s. (type (cell (grid s) 0 3), type (cell (grid s) 0 4), gameOver s, activePill s))
       (gameStep 10 GRID_ROWS GRID_COLS 2 1 stackState stackState)
     = Some (YELLOW, YELLOW, False,
             Some \<lparr>pos1 = \<lparr>row = 0, col = 3\<rparr>, pos2 = \<lparr>row = 0, col = 4\<rparr>,
                   color1 = YELLOW, color2 = BLUE, orientation = horizontal\<rparr>)
   \<and> map_option (\<lambda>s. (type (cell (grid s) 0 3), type (cell (grid s) 0 4), gameOver s, activePill s))
       (gameStepNext 10 GRID_ROWS GRID_COLS 2 1 stackStateNext stackStateNext)
     = Some (YELLOW, YELLOW, False,
             Some \<lparr>pos1 = \<lparr>row = 0, col = 3\<rparr>, pos2 = \<lparr>row = 0, col = 4\<rparr>,
                   color1 = YELLOW, color2 = BLUE, orientation = horizontal\<rparr>)
   \<and> map_option gameOver
       (case gameStep 10 GRID_ROWS GRID_COLS 2 1 stackState stackState of
          None \<Rightarrow> None
        | Some s \<Rightarrow> gameStep 10 GRID_ROWS GRID_COLS 2 1 s s)
     = Some True"
  by code_simp

end
